theory Spec2Isabelle
  imports Main
begin

section \<open>Card ingestion pipeline: the document-store script and the JSON-file script\<close>

text \<open>
  The repository holds two scripts, \<^verbatim>\<open>MDFILES/automate.py\<close> (catalog in a document
  store) and \<^verbatim>\<open>MDFILES/promoauto.py\<close> (catalog in two JSON files). Definitions named
  after a function of \<^verbatim>\<open>automate.py\<close> carry its name; the \<^verbatim>\<open>promoauto.py\<close> function of
  the same name carries the prefix \<open>promo_\<close> where the two differ. Strings are lists of
  8-bit characters: the character classes below are the ASCII ones.
\<close>

subsection \<open>Characters and Python's string methods\<close>

definition is_digit :: "char \<Rightarrow> bool" where
  "is_digit c = (48 \<le> (of_char c :: nat) \<and> (of_char c :: nat) \<le> 57)"

definition is_upper :: "char \<Rightarrow> bool" where
  "is_upper c = (65 \<le> (of_char c :: nat) \<and> (of_char c :: nat) \<le> 90)"

definition is_lower :: "char \<Rightarrow> bool" where
  "is_lower c = (97 \<le> (of_char c :: nat) \<and> (of_char c :: nat) \<le> 122)"

text \<open>The class \<^verbatim>\<open>\w\<close>: letters, digits and the underscore.\<close>

definition is_word :: "char \<Rightarrow> bool" where
  "is_word c = (is_digit c \<or> is_upper c \<or> is_lower c \<or> c = CHR ''_'')"

definition lower_char :: "char \<Rightarrow> char" where
  "lower_char c = (if is_upper c then char_of ((of_char c :: nat) + 32) else c)"

definition upper_char :: "char \<Rightarrow> char" where
  "upper_char c = (if is_lower c then char_of ((of_char c :: nat) - 32) else c)"

text \<open>\<^verbatim>\<open>s.lower()\<close>, \<^verbatim>\<open>s.upper()\<close> and \<^verbatim>\<open>s.replace(' ', '_')\<close>.\<close>

definition py_lower :: "string \<Rightarrow> string" where
  "py_lower s = map lower_char s"

definition py_upper :: "string \<Rightarrow> string" where
  "py_upper s = map upper_char s"

definition replace_space :: "string \<Rightarrow> string" where
  "replace_space s = map (\<lambda>c. if c = CHR '' '' then CHR ''_'' else c) s"

text \<open>
  \<^verbatim>\<open>s.rfind(c)\<close>: the index of the last occurrence of \<open>c\<close>, and \<open>-1\<close> when there is
  none.
\<close>

fun rfind :: "char \<Rightarrow> string \<Rightarrow> int" where
  "rfind c [] = -1"
| "rfind c (x # xs) =
     (let r = rfind c xs in if 0 \<le> r then r + 1 else if x = c then 0 else -1)"

text \<open>
  \<^verbatim>\<open>os.path.splitext\<close> (the generic \<^verbatim>\<open>_splitext\<close> with separator \<^verbatim>\<open>/\<close>): the
  extension starts at the last dot, provided that dot comes after the last separator
  and some character between the separator and the dot is not itself a dot (leading
  dots of the last component are skipped); otherwise there is no extension.
\<close>

definition splitext :: "string \<Rightarrow> string \<times> string" where
  "splitext p =
     (let sepIndex = rfind CHR ''/'' p;
          dotIndex = rfind CHR ''.'' p
      in if sepIndex < dotIndex \<and>
            dropWhile (\<lambda>c. c = CHR ''.'')
              (take (nat dotIndex - nat (sepIndex + 1)) (drop (nat (sepIndex + 1)) p)) \<noteq> []
         then (take (nat dotIndex) p, drop (nat dotIndex) p)
         else (p, []))"

subsection \<open>\<^verbatim>\<open>rename_files\<close>: the new name of one file\<close>

text \<open>
  Both scripts rename every file of the directory to
  \<^verbatim>\<open>file_name.lower().replace(' ', '_') + file_ext\<close>, where
  \<^verbatim>\<open>file_name, file_ext = os.path.splitext(file)\<close>.
\<close>

definition new_file_name :: "string \<Rightarrow> string" where
  "new_file_name file =
     (let (file_name, file_ext) = splitext file
      in replace_space (py_lower file_name) @ file_ext)"

subsection \<open>More of Python's string functions\<close>

text \<open>\<^verbatim>\<open>s.split(sep)\<close> for a one-character separator: never the empty list.\<close>

fun py_split :: "char \<Rightarrow> string \<Rightarrow> string list" where
  "py_split sep [] = [[]]"
| "py_split sep (c # cs) =
     (if c = sep then [] # py_split sep cs
      else (case py_split sep cs of [] \<Rightarrow> [[c]] | w # ws \<Rightarrow> (c # w) # ws))"

text \<open>\<^verbatim>\<open>sep.join(parts)\<close>.\<close>

fun py_join :: "string \<Rightarrow> string list \<Rightarrow> string" where
  "py_join sep [] = []"
| "py_join sep [w] = w"
| "py_join sep (w # v # ws) = w @ sep @ py_join sep (v # ws)"

text \<open>
  \<^verbatim>\<open>int(s)\<close> in base ten: surrounding whitespace is stripped, one sign is allowed, and
  the rest must be groups of digits separated by single underscores; anything else
  raises \<^verbatim>\<open>ValueError\<close>, here \<open>None\<close>.
\<close>

definition is_space :: "char \<Rightarrow> bool" where
  "is_space c =
     ((9 \<le> (of_char c :: nat) \<and> (of_char c :: nat) \<le> 13) \<or>
      (28 \<le> (of_char c :: nat) \<and> (of_char c :: nat) \<le> 32))"

definition py_strip :: "string \<Rightarrow> string" where
  "py_strip s = rev (dropWhile is_space (rev (dropWhile is_space s)))"

definition digits_value :: "string \<Rightarrow> nat" where
  "digits_value ds = foldl (\<lambda>acc c. 10 * acc + ((of_char c :: nat) - 48)) 0 ds"

definition py_int :: "string \<Rightarrow> int option" where
  "py_int s =
     (let t = py_strip s;
          (negative, body) =
            (case t of
               [] \<Rightarrow> (False, t)
             | c # r \<Rightarrow>
                 if c = CHR ''-'' then (True, r)
                 else if c = CHR ''+'' then (False, r)
                 else (False, t));
          groups = py_split CHR ''_'' body
      in if list_all (\<lambda>g. g \<noteq> [] \<and> list_all is_digit g) groups
         then Some ((if negative then - 1 else 1) * int (digits_value (concat groups)))
         else None)"

text \<open>\<^verbatim>\<open>str(i)\<close> for an integer, as an f-string formats it.\<close>

fun nat_digits :: "nat \<Rightarrow> string" where
  "nat_digits n =
     (if n < 10 then [char_of (48 + n)]
      else nat_digits (n div 10) @ [char_of (48 + n mod 10)])"

definition py_str :: "int \<Rightarrow> string" where
  "py_str i = (if i < 0 then CHR ''-'' # nat_digits (nat (- i)) else nat_digits (nat i))"

text \<open>\<^verbatim>\<open>os.path.basename\<close>: what follows the last separator.\<close>

definition basename :: "string \<Rightarrow> string" where
  "basename p = drop (nat (rfind CHR ''/'' p + 1)) p"

definition dirname_sep :: "string \<Rightarrow> string" where
  "dirname_sep p = take (nat (rfind CHR ''/'' p + 1)) p"

subsection \<open>Regular expressions with \<^verbatim>\<open>re.match\<close>\<close>

text \<open>
  The validators' patterns use character classes, \<^verbatim>\<open>+\<close> on a class, an optional group
  and concatenation. \<open>rests r s\<close> lists, in the order a backtracking matcher tries them
  (greedy first), what is left of \<open>s\<close> after a prefix matched by \<open>r\<close>.
  \<^verbatim>\<open>re.match\<close> anchors at the start of the string only, so it succeeds when there is
  such a prefix.
\<close>

datatype char_class = Digit | Word | AnyChar | Lit char

fun in_class :: "char_class \<Rightarrow> char \<Rightarrow> bool" where
  "in_class Digit c = is_digit c"
| "in_class Word c = is_word c"
| "in_class AnyChar c = (c \<noteq> CHR 0x0A)"
| "in_class (Lit d) c = (c = d)"

datatype regex = One char_class | Plus char_class | Opt regex | Seq regex regex

fun plus_rests :: "char_class \<Rightarrow> string \<Rightarrow> string list" where
  "plus_rests k [] = []"
| "plus_rests k (c # cs) = (if in_class k c then plus_rests k cs @ [cs] else [])"

fun rests :: "regex \<Rightarrow> string \<Rightarrow> string list" where
  "rests (One k) s = (case s of [] \<Rightarrow> [] | c # cs \<Rightarrow> if in_class k c then [cs] else [])"
| "rests (Plus k) s = plus_rests k s"
| "rests (Opt r) s = rests r s @ [s]"
| "rests (Seq r1 r2) s = concat (map (rests r2) (rests r1 s))"

text \<open>\<^verbatim>\<open>pattern.match(s)\<close>: the matched prefix, or \<open>None\<close>.\<close>

definition re_match :: "regex \<Rightarrow> string \<Rightarrow> string option" where
  "re_match r s =
     (case rests r s of [] \<Rightarrow> None | t # _ \<Rightarrow> Some (take (length s - length t) s))"

subsection \<open>\<^verbatim>\<open>is_valid_filename\<close>\<close>

text \<open>\<^verbatim>\<open>automate.py\<close>: \<^verbatim>\<open>re.compile(r'\d+_\w+(\_\w+)?\.\w+')\<close>.\<close>

definition pattern :: regex where
  "pattern =
     Seq (Plus Digit) (Seq (One (Lit CHR ''_'')) (Seq (Plus Word)
       (Seq (Opt (Seq (One (Lit CHR ''_'')) (Plus Word)))
         (Seq (One (Lit CHR ''.'')) (Plus Word)))))"

definition is_valid_filename :: "string \<Rightarrow> bool" where
  "is_valid_filename filename = (re_match pattern filename \<noteq> None)"

text \<open>\<^verbatim>\<open>promoauto.py\<close>: \<^verbatim>\<open>re.compile(r'\d+_\w+_\w+\.\w+')\<close>.\<close>

definition promo_pattern :: regex where
  "promo_pattern =
     Seq (Plus Digit) (Seq (One (Lit CHR ''_'')) (Seq (Plus Word)
       (Seq (One (Lit CHR ''_'')) (Seq (Plus Word)
         (Seq (One (Lit CHR ''.'')) (Plus Word))))))"

definition promo_is_valid_filename :: "string \<Rightarrow> bool" where
  "promo_is_valid_filename filename = (re_match promo_pattern filename \<noteq> None)"



subsection \<open>Errors, object storage and the environment\<close>

text \<open>
  \<^verbatim>\<open>CardProcessingError(message, error_code)\<close> carries its error code; every other
  exception is \<open>PyException\<close>.
\<close>

datatype error = CardProcessingError nat | PyException

text \<open>An object of the bucket; a field not given in the request is the empty string.\<close>

record s3_object =
  s3_key :: string
  s3_acl :: string
  s3_content_type :: string

text \<open>
  The storage service and the network are not part of the program: whether a request
  succeeds is read from the environment, per key for \<^verbatim>\<open>put_object\<close> and per local file
  (its path relative to the directory) for \<^verbatim>\<open>upload_file\<close>.
\<close>

record env =
  put_object_ok :: "string \<Rightarrow> bool"
  upload_ok :: "string \<Rightarrow> bool"

definition ACCEPTED_EXTENSIONS :: "string set" where
  "ACCEPTED_EXTENSIONS = {''.jpg'', ''.png'', ''.jpeg'', ''.gif''}"

subsection \<open>\<^verbatim>\<open>automate.py\<close>: folder, upload\<close>

definition create_folder ::
  "env \<Rightarrow> s3_object list \<Rightarrow> string \<Rightarrow> string \<Rightarrow> s3_object list \<times> (error + unit)" where
  "create_folder e bucket folder_name target_directory =
     (let key = ''cards/'' @ target_directory @ ''/'' @ folder_name @ ''/''
      in if put_object_ok e key
         then (bucket @ [\<lparr>s3_key = key, s3_acl = [], s3_content_type = []\<rparr>], Inr ())
         else (bucket, Inl PyException))"

text \<open>
  A file of the directory is given by its path relative to the directory, which is what
  \<^verbatim>\<open>Path(file_path).relative_to(directory).as_posix()\<close> computes from the absolute path.
  The result is the bucket after the call and either the exception raised or the value
  returned (\<open>None\<close> for a skipped file).
\<close>

definition upload_file ::
  "env \<Rightarrow> s3_object list \<Rightarrow> string \<Rightarrow> string \<Rightarrow> string \<Rightarrow>
   s3_object list \<times> (error + string option)" where
  "upload_file e bucket relative_path folder_name target_directory =
     (if \<not> is_valid_filename relative_path then (bucket, Inr None)
      else
        let (file_name, file_ext) = splitext relative_path;
            new_file_ext = (if py_lower file_ext = ''.gif'' then file_ext else ''.jpg'');
            relative_path_new_ext = file_name @ new_file_ext;
            content_type = (if py_lower file_ext = ''.gif'' then ''image/gif'' else ''image/jpeg'');
            s3_path = ''cards/'' @ target_directory @ ''/'' @ folder_name @ ''/'' @ relative_path_new_ext
        in if upload_ok e relative_path
           then (bucket @ [\<lparr>s3_key = s3_path, s3_acl = ''public-read'',
                            s3_content_type = content_type\<rparr>], Inr (Some relative_path))
           else (bucket, Inl (CardProcessingError 1)))"

text \<open>
  \<^verbatim>\<open>upload_files\<close> submits one task per file to a thread pool and reads the results as
  the tasks complete. The list \<open>all_files\<close> is taken in completion order. Leaving the
  \<^verbatim>\<open>with\<close> block waits for every submitted task, so every task runs, whatever the others
  do; \<^verbatim>\<open>future.result()\<close> re-raises the exception of the first failed task that the loop
  reaches.
\<close>

fun run_tasks ::
  "env \<Rightarrow> s3_object list \<Rightarrow> string \<Rightarrow> string \<Rightarrow> string list \<Rightarrow>
   s3_object list \<times> (error + string option) list" where
  "run_tasks e bucket folder_name target_directory [] = (bucket, [])"
| "run_tasks e bucket folder_name target_directory (file_path # rest) =
     (let (bucket1, result) = upload_file e bucket file_path folder_name target_directory;
          (bucket2, results) = run_tasks e bucket1 folder_name target_directory rest
      in (bucket2, result # results))"

fun as_completed_loop :: "string list \<Rightarrow> (error + string option) list \<Rightarrow> error + string list" where
  "as_completed_loop valid_files [] = Inr valid_files"
| "as_completed_loop valid_files (Inl exn # rest) = Inl exn"
| "as_completed_loop valid_files (Inr None # rest) = as_completed_loop valid_files rest"
| "as_completed_loop valid_files (Inr (Some result) # rest) =
     as_completed_loop (valid_files @ [result]) rest"

definition upload_files ::
  "env \<Rightarrow> s3_object list \<Rightarrow> string list \<Rightarrow> string \<Rightarrow> string \<Rightarrow>
   s3_object list \<times> (error + string list)" where
  "upload_files e bucket all_files folder_name target_directory =
     (let (bucket1, results) = run_tasks e bucket folder_name target_directory all_files
      in (bucket1, as_completed_loop [] results))"

subsection \<open>\<^verbatim>\<open>automate.py\<close>: the catalog in the document store\<close>

record collection_doc =
  col_id :: string
  col_name :: string
  col_origin :: "string option"
  col_aliases :: "string list"
  col_promo :: bool
  col_compressed :: bool
  col_rarity :: int
  col_tags :: "string list"
  col_added :: nat

record card_doc =
  card_id :: int
  card_name :: string
  card_level :: int
  card_col :: string
  card_animated :: bool
  card_tags :: string
  card_added :: nat
  card_url :: string
  card_shorturl :: string

record database =
  db_collections :: "collection_doc list"
  db_cards :: "card_doc list"

text \<open>\<^verbatim>\<open>db.cards.find_one(sort=[('id', -1)])\<close>: a card of greatest id, if there is a card.\<close>

fun find_one_sort_id_desc :: "card_doc list \<Rightarrow> card_doc option" where
  "find_one_sort_id_desc [] = None"
| "find_one_sort_id_desc (c # cs) =
     (case find_one_sort_id_desc cs of
        None \<Rightarrow> Some c
      | Some d \<Rightarrow> if card_id c < card_id d then Some d else Some c)"

text \<open>\<^verbatim>\<open>db.cards.find_one({'col': collection}, sort=[('id', 1)])\<close>: a card of least id.\<close>

fun find_one_sort_id_asc :: "card_doc list \<Rightarrow> card_doc option" where
  "find_one_sort_id_asc [] = None"
| "find_one_sort_id_asc (c # cs) =
     (case find_one_sort_id_asc cs of
        None \<Rightarrow> Some c
      | Some d \<Rightarrow> if card_id d < card_id c then Some d else Some c)"

text \<open>
  The loop of \<^verbatim>\<open>update_database\<close> over \<open>valid_files\<close>. The time stamp is the reading of
  the clock, a parameter. An exception inside the loop (the \<^verbatim>\<open>int\<close> of the level) leaves
  the cards inserted so far in the store and is re-raised as
  \<^verbatim>\<open>CardProcessingError(..., 2)\<close>.
\<close>

fun insert_cards ::
  "database \<Rightarrow> string \<Rightarrow> string \<Rightarrow> nat \<Rightarrow> string list \<Rightarrow> database \<times> (error + unit)" where
  "insert_cards db folder_name target_directory now [] = (db, Inr ())"
| "insert_cards db folder_name target_directory now (file # files) =
     (let (file_name, file_ext) = splitext file;
          is_animated = (py_lower file_ext = ''.gif'');
          cid = py_lower file_name
      in case py_split CHR ''_'' cid of
           [] \<Rightarrow> (db, Inl (CardProcessingError 2))
         | seg # segs \<Rightarrow>
             (case py_int seg of
                None \<Rightarrow> (db, Inl (CardProcessingError 2))
              | Some level \<Rightarrow>
                  let name_without_prefix = py_join ''_'' segs;
                      next_id = (case find_one_sort_id_desc (db_cards db) of
                                   Some last_card \<Rightarrow> card_id last_card + 1
                                 | None \<Rightarrow> 0);
                      base_path = ''/cards/'' @ target_directory @ ''/'' @ folder_name @ ''/'' @
                                  py_str level @ ''_'' @ name_without_prefix @ ''.jpg'';
                      url = ''https://hyejoo.sfo2.digitaloceanspaces.com'' @ base_path;
                      shorturl = ''https://cards.hyejoobot.com'' @ base_path;
                      new_card = \<lparr>card_id = next_id, card_name = name_without_prefix,
                                  card_level = level, card_col = folder_name,
                                  card_animated = is_animated, card_tags = target_directory,
                                  card_added = now, card_url = url, card_shorturl = shorturl\<rparr>
                  in insert_cards (db\<lparr>db_cards := db_cards db @ [new_card]\<rparr>)
                       folder_name target_directory now files))"

definition update_database ::
  "database \<Rightarrow> string \<Rightarrow> string \<Rightarrow> string list \<Rightarrow> nat \<Rightarrow> database \<times> (error + bool)" where
  "update_database db directory target_directory valid_files now =
     (let folder_name = basename directory;
          existing_collection = find (\<lambda>c. col_id c = folder_name) (db_collections db);
          (db1, new_collection_added) =
            (if existing_collection = None
             then (db\<lparr>db_collections := db_collections db @
                       [\<lparr>col_id = folder_name, col_name = py_upper folder_name,
                         col_origin = None, col_aliases = [folder_name], col_promo = False,
                         col_compressed = True, col_rarity = - 1,
                         col_tags = [target_directory], col_added = now\<rparr>]\<rparr>, True)
             else (db, False))
      in case insert_cards db1 folder_name target_directory now valid_files of
           (db2, Inl exn) \<Rightarrow> (db2, Inl (CardProcessingError 2))
         | (db2, Inr u) \<Rightarrow> (db2, Inr True))"

text \<open>
  \<^verbatim>\<open>check_name_duplicates\<close> (the same in both scripts): the names that occur more than
  once among the names \<^verbatim>\<open>card.get("name")\<close> of the cards.
\<close>

definition check_name_duplicates :: "string list \<Rightarrow> string set" where
  "check_name_duplicates names = set (filter (\<lambda>name. 1 < count_list names name) names)"

subsection \<open>\<^verbatim>\<open>automate.py\<close>: one directory, and the batch\<close>

text \<open>
  \<^verbatim>\<open>rename_files\<close>: every file of the tree gets its new name inside its own directory.
  Renaming onto an existing name replaces that file (POSIX \<^verbatim>\<open>os.rename\<close>), so two files
  with the same new name leave one.
\<close>

definition rename_files :: "string list \<Rightarrow> string list" where
  "rename_files files = remdups (map (\<lambda>p. dirname_sep p @ new_file_name (basename p)) files)"

record report_block =
  group_type :: string
  collection_name :: string
  number_of_cards :: nat
  uploaded_files :: "string list"
  first_card_id :: "int option"
  last_card_id :: "int option"
  error_lines :: "string list"

text \<open>
  The world of the script: the files of each input directory (paths relative to it),
  the bucket, the document store and the report file.
\<close>

record world =
  w_files :: "string \<Rightarrow> string list"
  w_bucket :: "s3_object list"
  w_db :: database
  w_report :: "report_block list"

text \<open>
  \<^verbatim>\<open>process_directory\<close> catches every exception and returns \<^verbatim>\<open>[], False\<close> then; the
  document store keeps what \<^verbatim>\<open>update_database\<close> wrote before it raised.
\<close>

definition process_directory ::
  "env \<Rightarrow> world \<Rightarrow> string \<Rightarrow> string \<Rightarrow> nat \<Rightarrow> world \<times> (string list \<times> bool)" where
  "process_directory e w input_directory target_directory now =
     (let folder_name = basename input_directory
      in case create_folder e (w_bucket w) folder_name target_directory of
           (bucket1, Inl exn) \<Rightarrow> (w\<lparr>w_bucket := bucket1\<rparr>, ([], False))
         | (bucket1, Inr u) \<Rightarrow>
             (let renamed = rename_files (w_files w input_directory);
                  w1 = w\<lparr>w_files := (w_files w)(input_directory := renamed), w_bucket := bucket1\<rparr>
              in (case upload_files e bucket1 renamed folder_name target_directory of
                    (bucket2, Inl exn) \<Rightarrow> (w1\<lparr>w_bucket := bucket2\<rparr>, ([], False))
                  | (bucket2, Inr valid_files) \<Rightarrow>
                      (case update_database (w_db w1) input_directory target_directory valid_files
                              now of
                         (db2, Inl exn) \<Rightarrow> (w1\<lparr>w_bucket := bucket2, w_db := db2\<rparr>, ([], False))
                       | (db2, Inr new_collection_added) \<Rightarrow>
                           (w1\<lparr>w_bucket := bucket2, w_db := db2\<rparr>,
                            (valid_files, new_collection_added))))))"

definition write_output_file ::
  "world \<Rightarrow> string \<Rightarrow> string list \<Rightarrow> string \<Rightarrow> string list \<Rightarrow> world" where
  "write_output_file w input_directory valid_files target_directory error_messages =
     (let collection = basename input_directory;
          of_collection = filter (\<lambda>c. card_col c = collection) (db_cards (w_db w));
          first_card = find_one_sort_id_asc of_collection;
          last_card = find_one_sort_id_desc of_collection
      in w\<lparr>w_report := w_report w @
            [\<lparr>group_type = target_directory, collection_name = collection,
              number_of_cards = length valid_files, uploaded_files = valid_files,
              first_card_id = map_option card_id first_card,
              last_card_id = map_option card_id last_card,
              error_lines = error_messages\<rparr>]\<rparr>)"

text \<open>
  The loops of \<^verbatim>\<open>main\<close>: the directories of \<^verbatim>\<open>'girlgroups'\<close>, then those of
  \<^verbatim>\<open>'boygroups'\<close>, each processed and reported in turn.
\<close>

fun main_loop :: "env \<Rightarrow> world \<Rightarrow> nat \<Rightarrow> (string \<times> string) list \<Rightarrow> world" where
  "main_loop e w now [] = w"
| "main_loop e w now ((target_directory, input_directory) # rest) =
     (let (w1, (valid_files, new_collection_added)) =
            process_directory e w input_directory target_directory now
      in main_loop e (write_output_file w1 input_directory valid_files target_directory [])
           now rest)"

definition main :: "env \<Rightarrow> world \<Rightarrow> nat \<Rightarrow> (string \<Rightarrow> string list) \<Rightarrow> world" where
  "main e w now input_directories =
     main_loop e w now
       (concat (map (\<lambda>target_directory.
                  map (\<lambda>input_directory. (target_directory, input_directory))
                    (input_directories target_directory))
          [''girlgroups'', ''boygroups'']))"

subsection \<open>\<^verbatim>\<open>promoauto.py\<close>: folder, upload\<close>

text \<open>
  The same steps with the other validator and with keys that start at the target
  directory (the caller passes \<^verbatim>\<open>promo_prefix + target_directory\<close>).
\<close>

definition promo_create_folder ::
  "env \<Rightarrow> s3_object list \<Rightarrow> string \<Rightarrow> string \<Rightarrow> s3_object list \<times> (error + unit)" where
  "promo_create_folder e bucket folder_name target_directory =
     (let key = target_directory @ ''/'' @ folder_name @ ''/''
      in if put_object_ok e key
         then (bucket @ [\<lparr>s3_key = key, s3_acl = [], s3_content_type = []\<rparr>], Inr ())
         else (bucket, Inl PyException))"

definition promo_upload_file ::
  "env \<Rightarrow> s3_object list \<Rightarrow> string \<Rightarrow> string \<Rightarrow> string \<Rightarrow>
   s3_object list \<times> (error + string option)" where
  "promo_upload_file e bucket relative_path folder_name target_directory =
     (if \<not> promo_is_valid_filename relative_path then (bucket, Inr None)
      else
        let (file_name, file_ext) = splitext relative_path;
            new_file_ext = (if py_lower file_ext = ''.gif'' then file_ext else ''.jpg'');
            relative_path_new_ext = file_name @ new_file_ext;
            content_type = (if py_lower file_ext = ''.gif'' then ''image/gif'' else ''image/jpeg'')
        in if upload_ok e relative_path
           then (bucket @ [\<lparr>s3_key = target_directory @ ''/'' @ folder_name @ ''/'' @
                                     relative_path_new_ext,
                            s3_acl = ''public-read'',
                            s3_content_type = content_type\<rparr>], Inr (Some relative_path))
           else (bucket, Inl (CardProcessingError 1)))"

fun promo_run_tasks ::
  "env \<Rightarrow> s3_object list \<Rightarrow> string \<Rightarrow> string \<Rightarrow> string list \<Rightarrow>
   s3_object list \<times> (error + string option) list" where
  "promo_run_tasks e bucket folder_name target_directory [] = (bucket, [])"
| "promo_run_tasks e bucket folder_name target_directory (file_path # rest) =
     (let (bucket1, result) = promo_upload_file e bucket file_path folder_name target_directory;
          (bucket2, results) = promo_run_tasks e bucket1 folder_name target_directory rest
      in (bucket2, result # results))"

definition promo_upload_files ::
  "env \<Rightarrow> s3_object list \<Rightarrow> string list \<Rightarrow> string \<Rightarrow> string \<Rightarrow>
   s3_object list \<times> (error + string list)" where
  "promo_upload_files e bucket all_files folder_name target_directory =
     (let (bucket1, results) = promo_run_tasks e bucket folder_name target_directory all_files
      in (bucket1, as_completed_loop [] results))"

subsection \<open>\<^verbatim>\<open>promoauto.py\<close>: the catalog in two JSON files\<close>

record json_collection =
  jcol_id :: string
  jcol_name :: string
  jcol_origin :: "string option"
  jcol_aliases :: "string list"
  jcol_promo :: bool
  jcol_compressed :: bool
  jcol_rarity :: int
  jcol_tags :: "string list"

text \<open>
  A card of \<^verbatim>\<open>cards.json\<close>. The script asks whether a card has the key \<^verbatim>\<open>"id"\<close>, so
  the id is optional here.
\<close>

record json_card =
  jcard_name :: string
  jcard_level :: int
  jcard_animated :: bool
  jcard_col :: string
  jcard_id :: "int option"
  jcard_tags :: string
  jcard_added :: nat

record json_files =
  cards_file :: "json_card list"
  collections_file :: "json_collection list"

text \<open>
  The loop of \<^verbatim>\<open>update_json_files\<close> over the file names that \<^verbatim>\<open>os.walk\<close> yields
  (\<open>walked\<close>), carrying \<open>cards_data\<close> and \<open>next_id\<close>.
\<close>

fun add_cards ::
  "json_card list \<Rightarrow> int \<Rightarrow> string \<Rightarrow> string \<Rightarrow> string list \<Rightarrow> nat \<Rightarrow> string list \<Rightarrow>
   error + json_card list \<times> int" where
  "add_cards cards_data next_id folder_name target_directory valid_files now [] =
     Inr (cards_data, next_id)"
| "add_cards cards_data next_id folder_name target_directory valid_files now (file # files) =
     (if file \<notin> set valid_files
      then add_cards cards_data next_id folder_name target_directory valid_files now files
      else
        let (file_name, file_ext) = splitext file;
            is_animated = (py_lower file_ext = ''.gif'')
        in if py_lower file_ext \<in> ACCEPTED_EXTENSIONS \<union> {''.gif''}
           then
             (let cid = py_lower file_name
              in case py_split CHR ''_'' cid of
                   [] \<Rightarrow> Inl PyException
                 | seg # segs \<Rightarrow>
                     (case py_int seg of
                        None \<Rightarrow> Inl PyException
                      | Some level \<Rightarrow>
                          let name_without_prefix = py_join ''_'' segs;
                              existing_card =
                                find (\<lambda>card. jcard_name card = name_without_prefix \<and>
                                             jcard_col card = folder_name) cards_data
                          in if existing_card \<noteq> None
                             then add_cards cards_data next_id folder_name target_directory
                                    valid_files now files
                             else add_cards
                                    (cards_data @
                                       [\<lparr>jcard_name = name_without_prefix, jcard_level = level,
                                         jcard_animated = is_animated, jcard_col = folder_name,
                                         jcard_id = Some next_id, jcard_tags = target_directory,
                                         jcard_added = now\<rparr>])
                                    (next_id + 1) folder_name target_directory valid_files now
                                    files))
           else add_cards cards_data next_id folder_name target_directory valid_files now files)"

text \<open>
  \<^verbatim>\<open>max(card["id"] for card in cards_data if "id" in card) + 1 if cards_data else 0\<close>;
  \<^verbatim>\<open>max\<close> of no value raises.
\<close>

definition first_next_id :: "json_card list \<Rightarrow> error + int" where
  "first_next_id cards_data =
     (if cards_data \<noteq> []
      then (case List.map_filter jcard_id cards_data of
              [] \<Rightarrow> Inl PyException
            | i # ids \<Rightarrow> Inr (fold max ids i + 1))
      else Inr 0)"

text \<open>
  Both files are read at the start and written at the end, so an exception on the way
  leaves them as they were; it is re-raised as \<^verbatim>\<open>CardProcessingError(..., 2)\<close>. The
  function has no \<^verbatim>\<open>return\<close> statement: its value is \<^verbatim>\<open>None\<close>.
\<close>

definition update_json_files ::
  "json_files \<Rightarrow> string list \<Rightarrow> string \<Rightarrow> string \<Rightarrow> string list \<Rightarrow> nat \<Rightarrow>
   json_files \<times> (error + unit)" where
  "update_json_files js walked directory target_directory valid_files now =
     (let cards_data = cards_file js;
          collections_data = collections_file js;
          folder_name = basename directory
      in case first_next_id cards_data of
           Inl exn \<Rightarrow> (js, Inl (CardProcessingError 2))
         | Inr next_id \<Rightarrow>
             (let collections_data1 =
                   (if find (\<lambda>collection. jcol_id collection = folder_name) collections_data = None
                    then collections_data @
                           [\<lparr>jcol_id = folder_name, jcol_name = py_upper folder_name,
                             jcol_origin = None, jcol_aliases = [folder_name],
                             jcol_promo = False, jcol_compressed = True, jcol_rarity = - 1,
                             jcol_tags = [target_directory]\<rparr>]
                    else collections_data)
              in (case add_cards cards_data next_id folder_name target_directory valid_files now
                         walked of
                    Inl exn \<Rightarrow> (js, Inl (CardProcessingError 2))
                  | Inr (cards_data1, next_id1) \<Rightarrow>
                      (\<lparr>cards_file = cards_data1, collections_file = collections_data1\<rparr>,
                       Inr ()))))"

record promo_world =
  pw_files :: "string \<Rightarrow> string list"
  pw_bucket :: "s3_object list"
  pw_json :: json_files

text \<open>
  \<^verbatim>\<open>process_directory\<close> of \<^verbatim>\<open>promoauto.py\<close> catches \<^verbatim>\<open>CardProcessingError\<close> only, and
  hands on the \<^verbatim>\<open>None\<close> of \<^verbatim>\<open>update_json_files\<close> as \<open>new_collection_added\<close>.
\<close>

definition promo_process_directory ::
  "env \<Rightarrow> promo_world \<Rightarrow> string \<Rightarrow> string \<Rightarrow> string \<Rightarrow> nat \<Rightarrow>
   promo_world \<times> (error + string list \<times> bool option)" where
  "promo_process_directory e w input_directory target_directory promo_prefix now =
     (let folder_name = basename input_directory
      in case promo_create_folder e (pw_bucket w) folder_name (promo_prefix @ target_directory) of
           (bucket1, Inl exn) \<Rightarrow> (w\<lparr>pw_bucket := bucket1\<rparr>, Inl exn)
         | (bucket1, Inr u) \<Rightarrow>
             (let renamed = rename_files (pw_files w input_directory);
                  w1 = w\<lparr>pw_files := (pw_files w)(input_directory := renamed),
                         pw_bucket := bucket1\<rparr>
              in (case promo_upload_files e bucket1 renamed folder_name
                         (promo_prefix @ target_directory) of
                    (bucket2, Inl exn) \<Rightarrow> (w1\<lparr>pw_bucket := bucket2\<rparr>, Inr ([], Some False))
                  | (bucket2, Inr valid_files) \<Rightarrow>
                      (case update_json_files (pw_json w1) (map basename renamed) input_directory
                              target_directory valid_files now of
                         (js2, Inl exn) \<Rightarrow>
                           (w1\<lparr>pw_bucket := bucket2, pw_json := js2\<rparr>, Inr ([], Some False))
                       | (js2, Inr u2) \<Rightarrow>
                           (w1\<lparr>pw_bucket := bucket2, pw_json := js2\<rparr>,
                            Inr (valid_files, None))))))"

subsection \<open>Notions used in the statements\<close>

text \<open>
  Two characters agree on being a dot and on being a separator; \<open>norm_char\<close> is what the
  renaming does to one character of the stem.
\<close>

definition dot_sep_rel :: "char \<Rightarrow> char \<Rightarrow> bool" where
  "dot_sep_rel a b = ((a = CHR ''.'') = (b = CHR ''.'') \<and> (a = CHR ''/'') = (b = CHR ''/''))"

definition norm_char :: "char \<Rightarrow> char" where
  "norm_char c = (if lower_char c = CHR '' '' then CHR ''_'' else lower_char c)"

text \<open>
  The strings a pattern matches in full, for reasoning about \<open>rests\<close>; a non-empty run of
  digits and a non-empty run of word characters.
\<close>

fun lang :: "regex \<Rightarrow> string set" where
  "lang (One k) = {[c] | c. in_class k c}"
| "lang (Plus k) = {u. u \<noteq> [] \<and> list_all (in_class k) u}"
| "lang (Opt r) = insert [] (lang r)"
| "lang (Seq r1 r2) = {u @ v | u v. u \<in> lang r1 \<and> v \<in> lang r2}"

definition digits :: "string \<Rightarrow> bool" where
  "digits ds = (ds \<noteq> [] \<and> list_all is_digit ds)"

definition words :: "string \<Rightarrow> bool" where
  "words w = (w \<noteq> [] \<and> list_all is_word w)"

text \<open>
  The next card id as the specification words it: the greatest existing id plus one, or
  zero for an empty catalog. A list of ids is consecutive from \<open>n\<close> when it is
  \<open>n, n + 1, n + 2, \<dots>\<close>
\<close>

definition next_card_id :: "int list \<Rightarrow> int" where
  "next_card_id ids = (if ids = [] then 0 else Max (set ids) + 1)"

definition consecutive :: "int \<Rightarrow> int list \<Rightarrow> bool" where
  "consecutive n ids = (ids = map (\<lambda>i. n + int i) [0..<length ids])"

definition json_consecutive :: "int \<Rightarrow> int option list \<Rightarrow> bool" where
  "json_consecutive n ids = (ids = map (\<lambda>i. Some (n + int i)) [0..<length ids])"

text \<open>
  The card name both scripts derive from a file:
  \<^verbatim>\<open>'_'.join(file_name.lower().split('_')[1:])\<close>.
\<close>

definition card_name_of :: "string \<Rightarrow> string" where
  "card_name_of file = py_join ''_'' (tl (py_split CHR ''_'' (py_lower (fst (splitext file)))))"

text \<open>The names of the cards of one collection in \<^verbatim>\<open>cards.json\<close>.\<close>

definition names_in :: "string \<Rightarrow> json_card list \<Rightarrow> string list" where
  "names_in folder_name cards = map jcard_name (filter (\<lambda>c. jcard_col c = folder_name) cards)"

text \<open>Some validly named file of the list fails to upload.\<close>

definition upload_fails :: "env \<Rightarrow> string list \<Rightarrow> bool" where
  "upload_fails e files = list_ex (\<lambda>p. is_valid_filename p \<and> \<not> upload_ok e p) files"

definition promo_upload_fails :: "env \<Rightarrow> string list \<Rightarrow> bool" where
  "promo_upload_fails e files =
     list_ex (\<lambda>p. promo_is_valid_filename p \<and> \<not> upload_ok e p) files"

subsection \<open>Inputs for the examples\<close>

text \<open>
  An environment in which every request succeeds and one in which the upload of
  \<^verbatim>\<open>3_c.jpg\<close> fails; an empty catalog; a directory \<^verbatim>\<open>in/twice\<close> of five files, and one with
  two files of the same card name and a badly named file.
\<close>

definition ok_env :: env where
  "ok_env = \<lparr>put_object_ok = (\<lambda>key. True), upload_ok = (\<lambda>path. True)\<rparr>"

definition failing_env :: env where
  "failing_env = \<lparr>put_object_ok = (\<lambda>key. True), upload_ok = (\<lambda>path. path \<noteq> ''3_c.jpg'')\<rparr>"

definition empty_db :: database where
  "empty_db = \<lparr>db_collections = [], db_cards = []\<rparr>"

definition empty_json :: json_files where
  "empty_json = \<lparr>cards_file = [], collections_file = []\<rparr>"

definition five_files_world :: world where
  "five_files_world =
     \<lparr>w_files = (\<lambda>d. if d = ''in/twice''
                     then [''1_a.jpg'', ''2_b.jpg'', ''3_c.jpg'', ''4_d.png'', ''5_e.gif''] else []),
      w_bucket = [], w_db = empty_db, w_report = []\<rparr>"

definition duplicates_world :: world where
  "duplicates_world =
     \<lparr>w_files = (\<lambda>d. if d = ''in/twice''
                     then [''1_abc.jpg'', ''2_abc.jpg'', ''bad!name.jpg''] else []),
      w_bucket = [], w_db = empty_db, w_report = []\<rparr>"

definition promo_duplicates_world :: promo_world where
  "promo_duplicates_world =
     \<lparr>pw_files = (\<lambda>d. if d = ''in/twice''
                      then [''1_abc.jpg'', ''2_abc.jpg'', ''bad!name.jpg''] else []),
      pw_bucket = [], pw_json = empty_json\<rparr>"

definition promo_two_segments_world :: promo_world where
  "promo_two_segments_world =
     \<lparr>pw_files = (\<lambda>d. if d = ''in/twice''
                      then [''1_abc_x.jpg'', ''2_abc_x.jpg'', ''bad!name.jpg''] else []),
      pw_bucket = [], pw_json = empty_json\<rparr>"

section \<open>Properties\<close>

subsection \<open>Characters\<close>

lemma lower_char_upper: "is_upper c \<Longrightarrow> \<not> is_upper (lower_char c)"
  by (simp add: lower_char_def is_upper_def)

lemma lower_char_idem: "lower_char (lower_char c) = lower_char c"
  by (simp add: lower_char_def is_upper_def)

subsection \<open>\<^verbatim>\<open>rfind\<close> and \<^verbatim>\<open>splitext\<close>\<close>

lemma rfind_lower: "- 1 \<le> rfind c xs"
  by (induction xs) (auto simp: Let_def)

lemma rfind_upper: "rfind c xs < int (length xs)"
  by (induction xs) (auto simp: Let_def)

lemma rfind_append:
  "rfind c (xs @ ys) = (if 0 \<le> rfind c ys then int (length xs) + rfind c ys else rfind c xs)"
  using rfind_lower [of c ys] by (induction xs) (auto simp: Let_def)

lemma rfind_rel:
  "list_all2 (\<lambda>a b. (a = c) = (b = c)) xs ys \<Longrightarrow> rfind c xs = rfind c ys"
  by (induction xs ys rule: list_all2_induct) (auto simp: Let_def)

lemma rfind_dot_rel: "list_all2 dot_sep_rel xs ys \<Longrightarrow> rfind CHR ''.'' xs = rfind CHR ''.'' ys"
  by (rule rfind_rel) (auto elim: list_all2_mono simp: dot_sep_rel_def)

lemma rfind_sep_rel: "list_all2 dot_sep_rel xs ys \<Longrightarrow> rfind CHR ''/'' xs = rfind CHR ''/'' ys"
  by (rule rfind_rel) (auto elim: list_all2_mono simp: dot_sep_rel_def)

lemma dropWhile_dots_rel:
  "list_all2 dot_sep_rel xs ys \<Longrightarrow>
   (dropWhile (\<lambda>c. c = CHR ''.'') xs = []) = (dropWhile (\<lambda>c. c = CHR ''.'') ys = [])"
  by (induction xs ys rule: list_all2_induct) (auto simp: dot_sep_rel_def)

lemma splitext_take_drop:
  "splitext p = (take (length (fst (splitext p))) p, drop (length (fst (splitext p))) p)"
proof -
  have "nat (rfind CHR ''.'' p) \<le> length p"
    using rfind_upper [of "CHR ''.''" p] by simp
  then show ?thesis
    by (simp add: splitext_def Let_def min_absorb2)
qed

lemma splitext_fst_length:
  "length (fst (splitext p)) =
     (if rfind CHR ''/'' p < rfind CHR ''.'' p \<and>
         dropWhile (\<lambda>c. c = CHR ''.'')
           (take (nat (rfind CHR ''.'' p) - nat (rfind CHR ''/'' p + 1))
              (drop (nat (rfind CHR ''/'' p + 1)) p)) \<noteq> []
      then nat (rfind CHR ''.'' p) else length p)"
proof -
  have "nat (rfind CHR ''.'' p) \<le> length p"
    using rfind_upper [of "CHR ''.''" p] by simp
  then show ?thesis
    unfolding splitext_def Let_def by (auto simp: min_absorb2)
qed

lemma splitext_length_rel:
  assumes "list_all2 dot_sep_rel q p"
  shows "length (fst (splitext q)) = length (fst (splitext p))"
proof -
  have len: "length q = length p"
    using assms by (rule list_all2_lengthD)
  have d: "rfind CHR ''.'' q = rfind CHR ''.'' p"
    using assms by (rule rfind_dot_rel)
  have s: "rfind CHR ''/'' q = rfind CHR ''/'' p"
    using assms by (rule rfind_sep_rel)
  have "list_all2 dot_sep_rel (take a (drop b q)) (take a (drop b p))" for a b
    using assms by (intro list_all2_takeI list_all2_dropI)
  then have c: "(dropWhile (\<lambda>c. c = CHR ''.'') (take a (drop b q)) = []) =
      (dropWhile (\<lambda>c. c = CHR ''.'') (take a (drop b p)) = [])" for a b
    by (rule dropWhile_dots_rel)
  show ?thesis
    unfolding splitext_fst_length [of q] splitext_fst_length [of p] d s len c ..
qed

lemma replace_lower: "replace_space (py_lower s) = map norm_char s"
  by (simp add: replace_space_def py_lower_def norm_char_def)


lemma of_char_lower:
  "(of_char (lower_char c) :: nat) = (if is_upper c then of_char c + 32 else of_char c)"
  by (simp add: lower_char_def is_upper_def)

lemma lower_char_is_lower: "is_upper c \<Longrightarrow> is_lower (lower_char c)"
  by (simp add: is_lower_def of_char_lower) (simp add: is_upper_def)

lemma lower_char_eq_iff:
  assumes "\<not> is_upper x" and "\<not> is_lower x"
  shows "(lower_char c = x) = (c = x)"
proof (cases "is_upper c")
  case True
  then have "lower_char c \<noteq> x" "c \<noteq> x"
    using assms lower_char_is_lower [of c] by auto
  then show ?thesis by simp
next
  case False
  then show ?thesis by (simp add: lower_char_def)
qed

lemma not_letter [simp]:
  "\<not> is_upper CHR ''.''" "\<not> is_lower CHR ''.''"
  "\<not> is_upper CHR ''/''" "\<not> is_lower CHR ''/''"
  "\<not> is_upper CHR '' ''" "\<not> is_lower CHR '' ''"
  "\<not> is_upper CHR ''_''" "\<not> is_lower CHR ''_''"
  by (simp_all add: is_upper_def is_lower_def)

lemma norm_char_rel: "dot_sep_rel (norm_char c) c"
  by (simp add: norm_char_def dot_sep_rel_def lower_char_eq_iff)

lemma norm_char_idem: "norm_char (norm_char c) = norm_char c"
  by (simp add: norm_char_def lower_char_eq_iff lower_char_idem)

subsection \<open>Renaming is idempotent\<close>

text \<open>
  Claim C7. The new name that \<^verbatim>\<open>rename_files\<close> gives a file (stem in lower case with
  spaces replaced by underscores, extension kept) is a fixed point of the renaming:
  renaming twice gives the same name as renaming once, for every file name.
\<close>

theorem normalization_idempotent: "new_file_name (new_file_name x) = new_file_name x"
proof -
  define k where "k = length (fst (splitext x))"
  have sx: "splitext x = (take k x, drop k x)"
    unfolding k_def by (rule splitext_take_drop)
  have kx: "k \<le> length x"
    using arg_cong [OF sx, of "\<lambda>r. length (fst r)"] by (simp add: k_def)
  define y where "y = map norm_char (take k x) @ drop k x"
  have nx: "new_file_name x = y"
    by (simp add: new_file_name_def sx replace_lower y_def)
  have "list_all2 dot_sep_rel (map norm_char (take k x) @ drop k x) (take k x @ drop k x)"
    by (intro list_all2_appendI)
      (simp_all add: list_all2_map1 list_all2_same norm_char_rel, simp add: dot_sep_rel_def)
  then have "list_all2 dot_sep_rel y x"
    by (simp add: y_def)
  then have "length (fst (splitext y)) = k"
    unfolding k_def by (rule splitext_length_rel)
  then have sy: "splitext y = (take k y, drop k y)"
    using splitext_take_drop [of y] by simp
  have ty: "take k y = map norm_char (take k x)" and dy: "drop k y = drop k x"
    using kx by (simp_all add: y_def)
  have "new_file_name y = map norm_char (take k y) @ drop k y"
    by (simp add: new_file_name_def sy replace_lower)
  also have "\<dots> = map norm_char (take k x) @ drop k x"
    unfolding ty dy by (simp add: norm_char_idem)
  also have "\<dots> = y"
    by (simp add: y_def)
  finally have "new_file_name y = y" .
  then show ?thesis
    by (simp add: nx)
qed

subsection \<open>What the patterns match\<close>

lemma plus_rests_iff:
  "t \<in> set (plus_rests k s) \<longleftrightarrow> (\<exists>u. u \<noteq> [] \<and> list_all (in_class k) u \<and> s = u @ t)"
proof (induction s)
  case Nil
  then show ?case by simp
next
  case (Cons c cs)
  show ?case
  proof (cases "in_class k c")
    case True
    have "(\<exists>u. u \<noteq> [] \<and> list_all (in_class k) u \<and> c # cs = u @ t) \<longleftrightarrow>
          (t = cs \<or> (\<exists>u. u \<noteq> [] \<and> list_all (in_class k) u \<and> cs = u @ t))"
      (is "?L \<longleftrightarrow> ?R")
    proof
      assume ?L
      then obtain u where u: "u \<noteq> []" "list_all (in_class k) u" "c # cs = u @ t" by blast
      then obtain u' where u': "u = c # u'" "cs = u' @ t"
        by (cases u) auto
      show ?R
      proof (cases "u' = []")
        case True
        with u' show ?thesis by simp
      next
        case False
        with u u' have "u' \<noteq> [] \<and> list_all (in_class k) u' \<and> cs = u' @ t"
          by simp
        then show ?thesis by (intro disjI2 exI [of _ u'])
      qed
    next
      assume ?R
      then show ?L
      proof
        assume "t = cs"
        then have "[c] \<noteq> [] \<and> list_all (in_class k) [c] \<and> c # cs = [c] @ t"
          using True by simp
        then show ?L by (rule exI [of _ "[c]"])
      next
        assume "\<exists>u. u \<noteq> [] \<and> list_all (in_class k) u \<and> cs = u @ t"
        then obtain u where "u \<noteq> []" "list_all (in_class k) u" "cs = u @ t" by blast
        then have "c # u \<noteq> [] \<and> list_all (in_class k) (c # u) \<and> c # cs = (c # u) @ t"
          using True by simp
        then show ?L by (rule exI [of _ "c # u"])
      qed
    qed
    with True Cons show ?thesis by auto
  next
    case False
    have "\<not> (\<exists>u. u \<noteq> [] \<and> list_all (in_class k) u \<and> c # cs = u @ t)"
    proof
      assume "\<exists>u. u \<noteq> [] \<and> list_all (in_class k) u \<and> c # cs = u @ t"
      then obtain u where u: "u \<noteq> []" "list_all (in_class k) u" "c # cs = u @ t" by blast
      then show False using False by (cases u) auto
    qed
    with False show ?thesis by simp
  qed
qed

lemma rests_iff: "t \<in> set (rests r s) \<longleftrightarrow> (\<exists>u. u \<in> lang r \<and> s = u @ t)"
proof (induction r arbitrary: s t)
  case (One k)
  then show ?case by (cases s) auto
next
  case (Plus k)
  then show ?case by (simp add: plus_rests_iff)
next
  case (Opt r)
  then show ?case by auto
next
  case (Seq r1 r2)
  have step: "t \<in> set (rests (Seq r1 r2) s) \<longleftrightarrow>
      (\<exists>m. (\<exists>u. u \<in> lang r1 \<and> s = u @ m) \<and> (\<exists>v. v \<in> lang r2 \<and> m = v @ t))"
    by (simp add: Seq.IH Bex_def)
  show ?case
  proof
    assume "t \<in> set (rests (Seq r1 r2) s)"
    then obtain m u v where "u \<in> lang r1" "s = u @ m" "v \<in> lang r2" "m = v @ t"
      unfolding step by blast
    then have "u @ v \<in> lang (Seq r1 r2) \<and> s = (u @ v) @ t"
      by auto
    then show "\<exists>x. x \<in> lang (Seq r1 r2) \<and> s = x @ t"
      by (rule exI [of _ "u @ v"])
  next
    assume "\<exists>x. x \<in> lang (Seq r1 r2) \<and> s = x @ t"
    then obtain x where "x \<in> lang (Seq r1 r2)" "s = x @ t"
      by blast
    then obtain u v where uv: "u \<in> lang r1" "v \<in> lang r2" "s = u @ v @ t"
      by auto
    then have "(\<exists>u'. u' \<in> lang r1 \<and> s = u' @ (v @ t)) \<and> (\<exists>v'. v' \<in> lang r2 \<and> v @ t = v' @ t)"
      by (intro conjI exI [of _ u] exI [of _ v]) simp_all
    then show "t \<in> set (rests (Seq r1 r2) s)"
      unfolding step by (rule exI [of _ "v @ t"])
  qed
qed

lemma re_match_iff: "re_match r s \<noteq> None \<longleftrightarrow> (\<exists>u t. u \<in> lang r \<and> s = u @ t)"
proof -
  have "re_match r s \<noteq> None \<longleftrightarrow> rests r s \<noteq> []"
    by (simp add: re_match_def split: list.splits)
  also have "\<dots> \<longleftrightarrow> (\<exists>t. t \<in> set (rests r s))"
    by (cases "rests r s") auto
  also have "\<dots> \<longleftrightarrow> (\<exists>t u. u \<in> lang r \<and> s = u @ t)"
    by (simp only: rests_iff)
  also have "\<dots> \<longleftrightarrow> (\<exists>u t. u \<in> lang r \<and> s = u @ t)"
    by (rule ex_comm)
  finally show ?thesis .
qed

lemma lang_Seq_iff: "u \<in> lang (Seq a b) \<longleftrightarrow> (\<exists>x y. x \<in> lang a \<and> y \<in> lang b \<and> u = x @ y)"
  by auto

lemma lang_Lit: "u \<in> lang (One (Lit c)) \<longleftrightarrow> u = [c]"
  by auto

lemma lang_digits: "u \<in> lang (Plus Digit) \<longleftrightarrow> digits u"
  by (simp add: digits_def list_all_iff)

lemma lang_words: "u \<in> lang (Plus Word) \<longleftrightarrow> words u"
  by (simp add: words_def list_all_iff)

lemma lang_Opt_iff: "u \<in> lang (Opt r) \<longleftrightarrow> u = [] \<or> u \<in> lang r"
  by auto

lemma lang_SeqE:
  assumes "u \<in> lang (Seq a b)"
  obtains x y where "x \<in> lang a" "y \<in> lang b" "u = x @ y"
  using assms by auto

lemma lang_SeqI: "x \<in> lang a \<Longrightarrow> y \<in> lang b \<Longrightarrow> x @ y \<in> lang (Seq a b)"
  by auto

lemma lang_pattern:
  "u \<in> lang pattern \<longleftrightarrow>
     (\<exists>ds w g x. digits ds \<and> words w \<and> (g = [] \<or> (\<exists>v. words v \<and> g = CHR ''_'' # v)) \<and>
        words x \<and> u = ds @ CHR ''_'' # w @ g @ CHR ''.'' # x)"
  (is "?L \<longleftrightarrow> ?R")
proof
  assume ?L
  then obtain ds r1 where 1: "ds \<in> lang (Plus Digit)" "u = ds @ r1" and
    r1: "r1 \<in> lang (Seq (One (Lit CHR ''_'')) (Seq (Plus Word)
       (Seq (Opt (Seq (One (Lit CHR ''_'')) (Plus Word)))
         (Seq (One (Lit CHR ''.'')) (Plus Word)))))"
    unfolding pattern_def by (rule lang_SeqE)
  from r1 obtain a r2 where 2: "a \<in> lang (One (Lit CHR ''_''))" "r1 = a @ r2" and
    r2: "r2 \<in> lang (Seq (Plus Word)
       (Seq (Opt (Seq (One (Lit CHR ''_'')) (Plus Word)))
         (Seq (One (Lit CHR ''.'')) (Plus Word))))"
    by (rule lang_SeqE)
  from r2 obtain w r3 where 3: "w \<in> lang (Plus Word)" "r2 = w @ r3" and
    r3: "r3 \<in> lang (Seq (Opt (Seq (One (Lit CHR ''_'')) (Plus Word)))
         (Seq (One (Lit CHR ''.'')) (Plus Word)))"
    by (rule lang_SeqE)
  from r3 obtain g r4 where 4: "g \<in> lang (Opt (Seq (One (Lit CHR ''_'')) (Plus Word)))" "r3 = g @ r4" and
    r4: "r4 \<in> lang (Seq (One (Lit CHR ''.'')) (Plus Word))"
    by (rule lang_SeqE)
  from r4 obtain b x where 5: "b \<in> lang (One (Lit CHR ''.''))" "r4 = b @ x" "x \<in> lang (Plus Word)"
    by (rule lang_SeqE)
  have g: "g = [] \<or> (\<exists>v. words v \<and> g = CHR ''_'' # v)"
    using 4(1) by (auto simp: words_def list_all_iff)
  have "digits ds \<and> words w \<and> (g = [] \<or> (\<exists>v. words v \<and> g = CHR ''_'' # v)) \<and>
        words x \<and> u = ds @ CHR ''_'' # w @ g @ CHR ''.'' # x"
    using 1(1) [unfolded lang_digits] 3(1) [unfolded lang_words] 5(3) [unfolded lang_words]
      2(1) [unfolded lang_Lit] 5(1) [unfolded lang_Lit] 1(2) 2(2) 3(2) 4(2) 5(2) g
    by simp
  then show ?R
    by (intro exI)
next
  assume ?R
  then obtain ds w g x where
    h: "digits ds" "words w" "g = [] \<or> (\<exists>v. words v \<and> g = CHR ''_'' # v)" "words x"
      "u = ds @ CHR ''_'' # w @ g @ CHR ''.'' # x"
    by (elim exE conjE)
  have g: "g \<in> lang (Opt (Seq (One (Lit CHR ''_'')) (Plus Word)))"
    using h(3) by (auto simp: words_def list_all_iff)
  have "ds @ [CHR ''_''] @ w @ g @ [CHR ''.''] @ x \<in> lang pattern"
    unfolding pattern_def using h(1,2,4) g
    by (intro lang_SeqI) (simp_all only: lang_digits lang_words lang_Lit)
  then show ?L
    by (simp add: h(5))
qed

lemma lang_promo_pattern:
  "u \<in> lang promo_pattern \<longleftrightarrow>
     (\<exists>ds w v x. digits ds \<and> words w \<and> words v \<and> words x \<and>
        u = ds @ CHR ''_'' # w @ CHR ''_'' # v @ CHR ''.'' # x)"
  (is "?L \<longleftrightarrow> ?R")
proof
  assume ?L
  then obtain ds r1 where 1: "ds \<in> lang (Plus Digit)" "u = ds @ r1" and
    r1: "r1 \<in> lang (Seq (One (Lit CHR ''_'')) (Seq (Plus Word)
       (Seq (One (Lit CHR ''_'')) (Seq (Plus Word)
         (Seq (One (Lit CHR ''.'')) (Plus Word))))))"
    unfolding promo_pattern_def by (rule lang_SeqE)
  from r1 obtain a r2 where 2: "a \<in> lang (One (Lit CHR ''_''))" "r1 = a @ r2" and
    r2: "r2 \<in> lang (Seq (Plus Word)
       (Seq (One (Lit CHR ''_'')) (Seq (Plus Word)
         (Seq (One (Lit CHR ''.'')) (Plus Word)))))"
    by (rule lang_SeqE)
  from r2 obtain w r3 where 3: "w \<in> lang (Plus Word)" "r2 = w @ r3" and
    r3: "r3 \<in> lang (Seq (One (Lit CHR ''_'')) (Seq (Plus Word)
         (Seq (One (Lit CHR ''.'')) (Plus Word))))"
    by (rule lang_SeqE)
  from r3 obtain a' r4 where 4: "a' \<in> lang (One (Lit CHR ''_''))" "r3 = a' @ r4" and
    r4: "r4 \<in> lang (Seq (Plus Word) (Seq (One (Lit CHR ''.'')) (Plus Word)))"
    by (rule lang_SeqE)
  from r4 obtain v r5 where 5: "v \<in> lang (Plus Word)" "r4 = v @ r5" and
    r5: "r5 \<in> lang (Seq (One (Lit CHR ''.'')) (Plus Word))"
    by (rule lang_SeqE)
  from r5 obtain b x where 6: "b \<in> lang (One (Lit CHR ''.''))" "r5 = b @ x" "x \<in> lang (Plus Word)"
    by (rule lang_SeqE)
  have "digits ds \<and> words w \<and> words v \<and> words x \<and>
        u = ds @ CHR ''_'' # w @ CHR ''_'' # v @ CHR ''.'' # x"
    using 1(1) [unfolded lang_digits] 3(1) [unfolded lang_words] 5(1) [unfolded lang_words]
      6(3) [unfolded lang_words] 2(1) [unfolded lang_Lit] 4(1) [unfolded lang_Lit]
      6(1) [unfolded lang_Lit] 1(2) 2(2) 3(2) 4(2) 5(2) 6(2)
    by simp
  then show ?R
    by (intro exI)
next
  assume ?R
  then obtain ds w v x where
    h: "digits ds" "words w" "words v" "words x"
      "u = ds @ CHR ''_'' # w @ CHR ''_'' # v @ CHR ''.'' # x"
    by (elim exE conjE)
  have "ds @ [CHR ''_''] @ w @ [CHR ''_''] @ v @ [CHR ''.''] @ x \<in> lang promo_pattern"
    unfolding promo_pattern_def using h(1,2,3,4)
    by (intro lang_SeqI) (simp_all only: lang_digits lang_words lang_Lit)
  then show ?L
    by (simp add: h(5))
qed



lemma valid_shape:
  "is_valid_filename p \<longleftrightarrow>
     (\<exists>ds w g x rest. digits ds \<and> words w \<and> (g = [] \<or> (\<exists>v. words v \<and> g = CHR ''_'' # v)) \<and>
        words x \<and> p = ds @ CHR ''_'' # w @ g @ CHR ''.'' # x @ rest)"
  (is "?L \<longleftrightarrow> ?R")
proof
  assume ?L
  then obtain u t where "u \<in> lang pattern" and p: "p = u @ t"
    unfolding is_valid_filename_def re_match_iff by (elim exE conjE)
  then obtain ds w g x where "digits ds" "words w" "g = [] \<or> (\<exists>v. words v \<and> g = CHR ''_'' # v)"
      "words x" "u = ds @ CHR ''_'' # w @ g @ CHR ''.'' # x"
    unfolding lang_pattern by (elim exE conjE)
  then have "digits ds \<and> words w \<and> (g = [] \<or> (\<exists>v. words v \<and> g = CHR ''_'' # v)) \<and>
        words x \<and> p = ds @ CHR ''_'' # w @ g @ CHR ''.'' # x @ t"
    using p by simp
  then show ?R
    by (intro exI)
next
  assume ?R
  then obtain ds w g x rest where h: "digits ds" "words w"
      "g = [] \<or> (\<exists>v. words v \<and> g = CHR ''_'' # v)" "words x"
      "p = ds @ CHR ''_'' # w @ g @ CHR ''.'' # x @ rest"
    by (elim exE conjE)
  have "ds @ CHR ''_'' # w @ g @ CHR ''.'' # x \<in> lang pattern"
    unfolding lang_pattern using h(1-4) by (intro exI conjI) (assumption | rule refl)+
  moreover have "p = (ds @ CHR ''_'' # w @ g @ CHR ''.'' # x) @ rest"
    using h(5) by simp
  ultimately have "\<exists>u t. u \<in> lang pattern \<and> p = u @ t"
    by (intro exI conjI)
  then show ?L
    unfolding is_valid_filename_def re_match_iff .
qed

lemma promo_valid_shape:
  "promo_is_valid_filename p \<longleftrightarrow>
     (\<exists>ds w v x rest. digits ds \<and> words w \<and> words v \<and> words x \<and>
        p = ds @ CHR ''_'' # w @ CHR ''_'' # v @ CHR ''.'' # x @ rest)"
  (is "?L \<longleftrightarrow> ?R")
proof
  assume ?L
  then obtain u t where "u \<in> lang promo_pattern" and p: "p = u @ t"
    unfolding promo_is_valid_filename_def re_match_iff by (elim exE conjE)
  then obtain ds w v x where "digits ds" "words w" "words v" "words x"
      "u = ds @ CHR ''_'' # w @ CHR ''_'' # v @ CHR ''.'' # x"
    unfolding lang_promo_pattern by (elim exE conjE)
  then have "digits ds \<and> words w \<and> words v \<and> words x \<and>
        p = ds @ CHR ''_'' # w @ CHR ''_'' # v @ CHR ''.'' # x @ t"
    using p by simp
  then show ?R
    by (intro exI)
next
  assume ?R
  then obtain ds w v x rest where h: "digits ds" "words w" "words v" "words x"
      "p = ds @ CHR ''_'' # w @ CHR ''_'' # v @ CHR ''.'' # x @ rest"
    by (elim exE conjE)
  have "ds @ CHR ''_'' # w @ CHR ''_'' # v @ CHR ''.'' # x \<in> lang promo_pattern"
    unfolding lang_promo_pattern using h(1-4) by (intro exI conjI) (assumption | rule refl)+
  moreover have "p = (ds @ CHR ''_'' # w @ CHR ''_'' # v @ CHR ''.'' # x) @ rest"
    using h(5) by simp
  ultimately have "\<exists>u t. u \<in> lang promo_pattern \<and> p = u @ t"
    by (intro exI conjI)
  then show ?L
    unfolding promo_is_valid_filename_def re_match_iff .
qed

lemma promo_valid_imp_valid:
  assumes "promo_is_valid_filename p"
  shows "is_valid_filename p"
proof -
  from assms obtain ds w v x rest where h: "digits ds" "words w" "words v" "words x"
      "p = ds @ CHR ''_'' # w @ CHR ''_'' # v @ CHR ''.'' # x @ rest"
    unfolding promo_valid_shape by (elim exE conjE)
  have "CHR ''_'' # v = [] \<or> (\<exists>v'. words v' \<and> CHR ''_'' # v = CHR ''_'' # v')"
    using h(3) by simp
  with h have "digits ds \<and> words w \<and>
      (CHR ''_'' # v = [] \<or> (\<exists>v'. words v' \<and> CHR ''_'' # v = CHR ''_'' # v')) \<and>
      words x \<and> p = ds @ CHR ''_'' # w @ (CHR ''_'' # v) @ CHR ''.'' # x @ rest"
    by simp
  then show ?thesis
    unfolding valid_shape by (intro exI)
qed


subsection \<open>The level segment of a valid name\<close>

lemma digit_not_upper: "is_digit c \<Longrightarrow> \<not> is_upper c"
  by (simp add: is_digit_def is_upper_def)

lemma digit_not_space: "is_digit c \<Longrightarrow> \<not> is_space c"
  by (simp add: is_digit_def is_space_def)

lemma digit_not_special:
  "\<not> is_digit CHR ''_''" "\<not> is_digit CHR ''-''" "\<not> is_digit CHR ''+''"
  by (simp_all add: is_digit_def)

lemma py_lower_digits: "list_all is_digit ds \<Longrightarrow> py_lower ds = ds"
  by (induction ds) (simp_all add: py_lower_def lower_char_def digit_not_upper)

lemma py_lower_append: "py_lower (xs @ ys) = py_lower xs @ py_lower ys"
  by (simp add: py_lower_def)

lemma py_lower_underscore: "py_lower (CHR ''_'' # xs) = CHR ''_'' # py_lower xs"
  by (simp add: py_lower_def lower_char_def)

lemma py_split_nonempty: "py_split sep s \<noteq> []"
  by (induction s) (auto split: list.splits)

lemma py_split_prefix: "sep \<notin> set xs \<Longrightarrow> py_split sep (xs @ sep # ys) = xs # py_split sep ys"
  by (induction xs) (auto split: list.splits simp: py_split_nonempty)

lemma py_split_none: "sep \<notin> set xs \<Longrightarrow> py_split sep xs = [xs]"
  by (induction xs) auto

lemma digits_no_underscore: "list_all is_digit ds \<Longrightarrow> CHR ''_'' \<notin> set ds"
  using digit_not_special(1) by (auto simp: list_all_iff)

lemma py_strip_digits:
  assumes "digits ds"
  shows "py_strip ds = ds"
proof -
  from assms obtain d ds' where ds: "ds = d # ds'" and d: "is_digit d"
    by (cases ds) (auto simp: digits_def)
  have l: "is_digit (last ds)"
    using assms by (auto simp: digits_def list_all_iff)
  have 1: "dropWhile is_space ds = ds"
    using d by (simp add: ds digit_not_space)
  have "rev ds \<noteq> []" "hd (rev ds) = last ds"
    using assms by (simp_all add: digits_def hd_rev)
  then have 2: "dropWhile is_space (rev ds) = rev ds"
    using l by (simp add: dropWhile_eq_self_iff digit_not_space)
  show ?thesis
    by (simp add: py_strip_def 1 2)
qed

lemma py_int_digits:
  assumes "digits ds"
  shows "py_int ds = Some (int (digits_value ds))"
proof -
  from assms obtain d ds' where ds: "ds = d # ds'" and d: "is_digit d"
    by (cases ds) (auto simp: digits_def)
  have sign: "d \<noteq> CHR ''-''" "d \<noteq> CHR ''+''"
    using d digit_not_special by auto
  have all: "list_all is_digit ds" "ds \<noteq> []"
    using assms by (simp_all add: digits_def)
  have groups: "py_split CHR ''_'' ds = [ds]"
    using all(1) by (intro py_split_none digits_no_underscore)
  have body: "(case ds of
               [] \<Rightarrow> (False, ds)
             | c # r \<Rightarrow>
                 if c = CHR ''-'' then (True, r)
                 else if c = CHR ''+'' then (False, r)
                 else (False, ds)) = (False, ds)"
    using sign by (simp add: ds)
  show ?thesis
    using all by (simp add: py_int_def py_strip_digits [OF assms] Let_def body groups)
qed

lemma rfind_found: "int (length xs) \<le> rfind c (xs @ c # ys)"
proof -
  have "0 \<le> rfind c (c # ys)"
    using rfind_lower [of c ys] by (simp add: Let_def)
  then show ?thesis
    using rfind_lower [of c ys] by (simp add: rfind_append Let_def)
qed

lemma stem_prefix:
  assumes "is_valid_filename p"
  shows "\<exists>ds zs. digits ds \<and> fst (splitext p) = ds @ CHR ''_'' # zs"
proof -
  from assms obtain ds w g x rest where h: "digits ds" "words w"
      "p = ds @ CHR ''_'' # w @ g @ CHR ''.'' # x @ rest"
    unfolding valid_shape by (elim exE conjE)
  define k where "k = length (fst (splitext p))"
  have "fst (splitext p) = fst (take k p, drop k p)"
    unfolding k_def by (rule arg_cong [OF splitext_take_drop])
  then have sp: "fst (splitext p) = take k p"
    by (simp only: fst_conv)
  have p': "p = (ds @ CHR ''_'' # w @ g) @ CHR ''.'' # (x @ rest)"
    using h(3) by simp
  have "int (length (ds @ CHR ''_'' # w @ g)) \<le> rfind CHR ''.'' p"
    unfolding p' by (rule rfind_found)
  then have dot: "length ds + 1 \<le> nat (rfind CHR ''.'' p)"
    by simp
  have "length ds + 1 \<le> length p"
    using h(3) by simp
  with dot have k: "length ds + 1 \<le> k"
    unfolding k_def splitext_fst_length by simp
  have "take k p = ds @ CHR ''_'' # take (k - length ds - 1) (w @ g @ CHR ''.'' # x @ rest)"
    using k by (simp add: h(3) take_Cons')
  with h(1) sp have "digits ds \<and> fst (splitext p) =
      ds @ CHR ''_'' # take (k - length ds - 1) (w @ g @ CHR ''.'' # x @ rest)"
    by simp
  then show ?thesis
    by (intro exI)
qed

lemma level_segment:
  assumes "is_valid_filename p"
  shows "\<exists>seg segs. py_split CHR ''_'' (py_lower (fst (splitext p))) = seg # segs \<and>
           digits seg \<and> py_int seg = Some (int (digits_value seg))"
proof -
  from stem_prefix [OF assms] obtain ds zs where
    h: "digits ds" "fst (splitext p) = ds @ CHR ''_'' # zs"
    by (elim exE conjE)
  have all: "list_all is_digit ds"
    using h(1) by (simp add: digits_def)
  have "py_lower (fst (splitext p)) = ds @ CHR ''_'' # py_lower zs"
    by (simp add: h(2) py_lower_append py_lower_underscore py_lower_digits [OF all])
  then have "py_split CHR ''_'' (py_lower (fst (splitext p))) = ds # py_split CHR ''_'' (py_lower zs)"
    using py_split_prefix [OF digits_no_underscore [OF all]] by simp
  with h(1) py_int_digits [OF h(1)] have
    "py_split CHR ''_'' (py_lower (fst (splitext p))) = ds # py_split CHR ''_'' (py_lower zs) \<and>
      digits ds \<and> py_int ds = Some (int (digits_value ds))"
    by simp
  then show ?thesis
    by (intro exI)
qed

subsection \<open>Card ids in the document store\<close>

lemma consecutive_Nil: "consecutive n []"
  by (simp add: consecutive_def)

lemma consecutive_Cons: "consecutive n (m # ids) \<longleftrightarrow> m = n \<and> consecutive (n + 1) ids"
proof -
  have "map (\<lambda>i. n + int i) [0..<Suc (length ids)] =
      n # map (\<lambda>i. n + 1 + int i) [0..<length ids]"
    by (simp add: map_upt_Suc del: upt_Suc)
  then show ?thesis
    by (auto simp: consecutive_def)
qed

lemma find_desc_None: "find_one_sort_id_desc cs = None \<longleftrightarrow> cs = []"
  by (induction cs) (auto split: option.splits)

lemma find_desc_Max:
  "find_one_sort_id_desc cs = Some d \<Longrightarrow> card_id d = Max (set (map card_id cs))"
proof (induction cs arbitrary: d)
  case Nil
  then show ?case by simp
next
  case (Cons c cs)
  show ?case
  proof (cases "find_one_sort_id_desc cs")
    case None
    then have "cs = []" by (simp add: find_desc_None)
    with Cons.prems show ?thesis by simp
  next
    case (Some e)
    then have e: "card_id e = Max (set (map card_id cs))" and ne: "cs \<noteq> []"
      using Cons.IH find_desc_None [of cs] by auto
    have "card_id d = max (card_id c) (card_id e)"
      using Cons.prems Some by (auto split: if_splits)
    then show ?thesis
      using e ne by simp
  qed
qed

lemma next_id_desc:
  "(case find_one_sort_id_desc cs of Some last_card \<Rightarrow> card_id last_card + 1 | None \<Rightarrow> 0) =
     next_card_id (map card_id cs)"
proof (cases "find_one_sort_id_desc cs")
  case None
  then show ?thesis by (simp add: find_desc_None next_card_id_def)
next
  case (Some d)
  then have "cs \<noteq> []" using find_desc_None [of cs] by auto
  with Some find_desc_Max [OF Some] show ?thesis
    by (simp add: next_card_id_def)
qed

lemma next_card_id_snoc: "next_card_id (ids @ [next_card_id ids]) = next_card_id ids + 1"
proof (cases "ids = []")
  case True
  then show ?thesis by (simp add: next_card_id_def)
next
  case False
  then have "Max (insert (Max (set ids) + 1) (set ids)) = Max (set ids) + 1"
    by (simp add: max_def)
  with False show ?thesis
    by (simp add: next_card_id_def)
qed

lemma insert_cards_shape:
  "insert_cards db folder_name target_directory now files = (db', r) \<Longrightarrow>
   \<exists>new. db' = db\<lparr>db_cards := db_cards db @ new\<rparr> \<and>
     consecutive (next_card_id (map card_id (db_cards db))) (map card_id new) \<and>
     map card_name new = map card_name_of (take (length new) files) \<and>
     list_all (\<lambda>c. card_col c = folder_name) new \<and>
     length new \<le> length files \<and> (r = Inr () \<longleftrightarrow> length new = length files)"
proof (induction files arbitrary: db db' r)
  case Nil
  then have "db' = db\<lparr>db_cards := db_cards db @ []\<rparr> \<and>
     consecutive (next_card_id (map card_id (db_cards db))) (map card_id []) \<and>
     map card_name [] = map card_name_of (take (length ([] :: card_doc list)) []) \<and>
     list_all (\<lambda>c. card_col c = folder_name) [] \<and>
     length ([] :: card_doc list) \<le> length ([] :: string list) \<and>
     (r = Inr () \<longleftrightarrow> length ([] :: card_doc list) = length ([] :: string list))"
    by (simp add: consecutive_Nil)
  then show ?case by (rule exI [of _ "[]"])
next
  case (Cons fl files)
  obtain file_name file_ext where se: "splitext fl = (file_name, file_ext)"
    by (cases "splitext fl")
  obtain seg segs where sp: "py_split CHR ''_'' (py_lower file_name) = seg # segs"
    using py_split_nonempty [of "CHR ''_''" "py_lower file_name"]
    by (cases "py_split CHR ''_'' (py_lower file_name)") auto
  show ?case
  proof (cases "py_int seg")
    case None
    with Cons.prems se sp have "db' = db \<and> r = Inl (CardProcessingError 2)"
      by (auto simp: Let_def)
    then have "db' = db\<lparr>db_cards := db_cards db @ []\<rparr> \<and>
       consecutive (next_card_id (map card_id (db_cards db))) (map card_id []) \<and>
       map card_name [] = map card_name_of (take (length ([] :: card_doc list)) (fl # files)) \<and>
       list_all (\<lambda>c. card_col c = folder_name) [] \<and>
       length ([] :: card_doc list) \<le> length (fl # files) \<and>
       (r = Inr () \<longleftrightarrow> length ([] :: card_doc list) = length (fl # files))"
      by (simp add: consecutive_Nil)
    then show ?thesis by (rule exI [of _ "[]"])
  next
    case (Some level)
    define c where "c = \<lparr>card_id = next_card_id (map card_id (db_cards db)),
        card_name = py_join ''_'' segs, card_level = level, card_col = folder_name,
        card_animated = (py_lower file_ext = ''.gif''), card_tags = target_directory,
        card_added = now,
        card_url = ''https://hyejoo.sfo2.digitaloceanspaces.com'' @ ''/cards/'' @
          target_directory @ ''/'' @ folder_name @ ''/'' @ py_str level @ ''_'' @
          py_join ''_'' segs @ ''.jpg'',
        card_shorturl = ''https://cards.hyejoobot.com'' @ ''/cards/'' @
          target_directory @ ''/'' @ folder_name @ ''/'' @ py_str level @ ''_'' @
          py_join ''_'' segs @ ''.jpg''\<rparr>"
    have step: "insert_cards db folder_name target_directory now (fl # files) =
        insert_cards (db\<lparr>db_cards := db_cards db @ [c]\<rparr>) folder_name target_directory now files"
      by (simp add: se sp Some Let_def next_id_desc c_def)
    with Cons.prems have "insert_cards (db\<lparr>db_cards := db_cards db @ [c]\<rparr>) folder_name
        target_directory now files = (db', r)"
      by simp
    from Cons.IH [OF this] obtain new where new:
      "db' = db\<lparr>db_cards := db_cards db @ [c]\<rparr>\<lparr>db_cards := db_cards (db\<lparr>db_cards := db_cards db @ [c]\<rparr>) @ new\<rparr>"
      "consecutive (next_card_id (map card_id (db_cards (db\<lparr>db_cards := db_cards db @ [c]\<rparr>)))) (map card_id new)"
      "map card_name new = map card_name_of (take (length new) files)"
      "list_all (\<lambda>c. card_col c = folder_name) new"
      "length new \<le> length files" "r = Inr () \<longleftrightarrow> length new = length files"
      by (elim exE conjE)
    have cid: "card_id c = next_card_id (map card_id (db_cards db))"
      and cname: "card_name c = card_name_of fl" and ccol: "card_col c = folder_name"
      by (simp_all add: c_def card_name_of_def se sp)
    have nxt: "next_card_id (map card_id (db_cards db) @ [card_id c]) =
        next_card_id (map card_id (db_cards db)) + 1"
      unfolding cid by (rule next_card_id_snoc)
    have "db' = db\<lparr>db_cards := db_cards db @ (c # new)\<rparr> \<and>
       consecutive (next_card_id (map card_id (db_cards db))) (map card_id (c # new)) \<and>
       map card_name (c # new) = map card_name_of (take (length (c # new)) (fl # files)) \<and>
       list_all (\<lambda>c. card_col c = folder_name) (c # new) \<and>
       length (c # new) \<le> length (fl # files) \<and>
       (r = Inr () \<longleftrightarrow> length (c # new) = length (fl # files))"
      using new nxt cid cname ccol by (simp add: consecutive_Cons)
    then show ?thesis by (rule exI [of _ "c # new"])
  qed
qed

subsection \<open>Uploads of one directory\<close>

lemma upload_file_result:
  "snd (upload_file e bucket p folder_name target_directory) =
     (if \<not> is_valid_filename p then Inr None
      else if upload_ok e p then Inr (Some p) else Inl (CardProcessingError 1))"
  by (simp add: upload_file_def Let_def split: prod.splits)

lemma upload_file_invalid:
  "\<not> is_valid_filename p \<Longrightarrow> upload_file e bucket p folder_name target_directory = (bucket, Inr None)"
  by (simp add: upload_file_def)

lemma run_tasks_Cons:
  "run_tasks e bucket folder_name target_directory (p # rest) =
     (fst (run_tasks e (fst (upload_file e bucket p folder_name target_directory))
             folder_name target_directory rest),
      snd (upload_file e bucket p folder_name target_directory) #
      snd (run_tasks e (fst (upload_file e bucket p folder_name target_directory))
             folder_name target_directory rest))"
  by (simp add: split_beta)

lemma run_tasks_results:
  "snd (run_tasks e bucket folder_name target_directory files) =
     map (\<lambda>p. if \<not> is_valid_filename p then Inr None
               else if upload_ok e p then Inr (Some p) else Inl (CardProcessingError 1)) files"
proof (induction files arbitrary: bucket)
  case Nil
  then show ?case by simp
next
  case (Cons p files)
  show ?case
    unfolding run_tasks_Cons by (simp only: snd_conv list.map Cons.IH upload_file_result)
qed

lemma run_tasks_filter:
  "fst (run_tasks e bucket folder_name target_directory files) =
   fst (run_tasks e bucket folder_name target_directory (filter is_valid_filename files))"
proof (induction files arbitrary: bucket)
  case Nil
  then show ?case by simp
next
  case (Cons p files)
  show ?case
  proof (cases "is_valid_filename p")
    case True
    then have "filter is_valid_filename (p # files) = p # filter is_valid_filename files"
      by simp
    then show ?thesis
      unfolding run_tasks_Cons by (simp only: run_tasks_Cons fst_conv Cons.IH [symmetric])
  next
    case False
    then have "filter is_valid_filename (p # files) = filter is_valid_filename files"
      and "fst (upload_file e bucket p folder_name target_directory) = bucket"
      by (simp_all add: upload_file_invalid)
    then show ?thesis
      unfolding run_tasks_Cons by (simp only: fst_conv Cons.IH [symmetric])
  qed
qed

lemma as_completed_loop_results:
  "as_completed_loop acc
     (map (\<lambda>p. if \<not> is_valid_filename p then Inr None
               else if upload_ok e p then Inr (Some p) else Inl (CardProcessingError 1)) files) =
   (if upload_fails e files then Inl (CardProcessingError 1)
    else Inr (acc @ filter is_valid_filename files))"
  by (induction files arbitrary: acc) (simp_all add: upload_fails_def)

lemma upload_files_split:
  "upload_files e bucket files folder_name target_directory =
     (fst (run_tasks e bucket folder_name target_directory files),
      as_completed_loop [] (snd (run_tasks e bucket folder_name target_directory files)))"
  by (simp add: upload_files_def split_beta)

lemma upload_files_result:
  "snd (upload_files e bucket files folder_name target_directory) =
   (if upload_fails e files then Inl (CardProcessingError 1)
    else Inr (filter is_valid_filename files))"
proof -
  have "snd (upload_files e bucket files folder_name target_directory) =
      as_completed_loop [] (snd (run_tasks e bucket folder_name target_directory files))"
    by (simp add: upload_files_def split_beta)
  then show ?thesis
    by (simp add: run_tasks_results as_completed_loop_results)
qed

lemma upload_fails_filter: "upload_fails e (filter is_valid_filename files) = upload_fails e files"
  by (induction files) (simp_all add: upload_fails_def)

lemma upload_files_filter:
  "upload_files e bucket files folder_name target_directory =
   upload_files e bucket (filter is_valid_filename files) folder_name target_directory"
proof -
  have "as_completed_loop [] (snd (run_tasks e bucket folder_name target_directory files)) =
      as_completed_loop []
        (snd (run_tasks e bucket folder_name target_directory (filter is_valid_filename files)))"
    by (simp add: run_tasks_results as_completed_loop_results upload_fails_filter)
  then show ?thesis
    unfolding upload_files_split
    using run_tasks_filter [of e bucket folder_name target_directory files] by simp
qed

lemma insert_cards_valid:
  "list_all is_valid_filename files \<Longrightarrow>
   snd (insert_cards db folder_name target_directory now files) = Inr ()"
proof (induction files arbitrary: db)
  case Nil
  then show ?case by simp
next
  case (Cons p files)
  then have "is_valid_filename p" by simp
  from level_segment [OF this] obtain seg segs where
    s: "py_split CHR ''_'' (py_lower (fst (splitext p))) = seg # segs"
       "py_int seg = Some (int (digits_value seg))"
    by (elim exE conjE)
  obtain file_name file_ext where se: "splitext p = (file_name, file_ext)"
    by (cases "splitext p")
  from Cons have "\<And>db. snd (insert_cards db folder_name target_directory now files) = Inr ()"
    by simp
  then show ?case
    using s by (simp add: se Let_def)
qed

lemma update_database_result:
  "snd (update_database db directory target_directory valid_files now) =
     (if snd (insert_cards
               (fst (if find (\<lambda>c. col_id c = basename directory) (db_collections db) = None
                 then (db\<lparr>db_collections := db_collections db @
                       [\<lparr>col_id = basename directory, col_name = py_upper (basename directory),
                         col_origin = None, col_aliases = [basename directory], col_promo = False,
                         col_compressed = True, col_rarity = - 1,
                         col_tags = [target_directory], col_added = now\<rparr>]\<rparr>, True)
                 else (db, False)))
               (basename directory) target_directory now valid_files) = Inr ()
      then Inr True else Inl (CardProcessingError 2))"
  by (simp add: update_database_def Let_def split: prod.splits sum.splits)

lemma update_database_never_false:
  "snd (update_database db directory target_directory valid_files now) \<noteq> Inr False"
  by (simp add: update_database_result)

lemma update_database_valid:
  "list_all is_valid_filename valid_files \<Longrightarrow>
   snd (update_database db directory target_directory valid_files now) = Inr True"
  by (simp add: update_database_result insert_cards_valid)

subsection \<open>Card ids in the JSON files\<close>

lemma json_consecutive_Nil: "json_consecutive n []"
  by (simp add: json_consecutive_def)

lemma json_consecutive_Cons:
  "json_consecutive n (m # ids) \<longleftrightarrow> m = Some n \<and> json_consecutive (n + 1) ids"
proof -
  have "map (\<lambda>i. Some (n + int i)) [0..<Suc (length ids)] =
      Some n # map (\<lambda>i. Some (n + 1 + int i)) [0..<length ids]"
    by (simp add: map_upt_Suc del: upt_Suc)
  then show ?thesis
    by (auto simp: json_consecutive_def)
qed

lemma fold_max_Max: "fold max ids (i :: int) = Max (set (i # ids))"
  by (rule Max.set_eq_fold [symmetric])

lemma first_next_id_eq:
  "first_next_id cards =
     (if cards \<noteq> [] \<and> List.map_filter jcard_id cards = [] then Inl PyException
      else Inr (next_card_id (List.map_filter jcard_id cards)))"
proof (cases "cards = []")
  case True
  then show ?thesis
    by (simp add: first_next_id_def next_card_id_def)
next
  case False
  show ?thesis
  proof (cases "List.map_filter jcard_id cards")
    case Nil
    with False show ?thesis by (simp add: first_next_id_def)
  next
    case (Cons i ids)
    with False show ?thesis
      by (simp add: first_next_id_def next_card_id_def fold_max_Max)
  qed
qed

lemma add_cards_ok:
  assumes "list_all promo_is_valid_filename valid_files"
  shows "\<exists>res. add_cards cards n folder_name target_directory valid_files now walked = Inr res"
proof (induction walked arbitrary: cards n)
  case Nil
  show ?case by simp
next
  case (Cons fl walked)
  show ?case
  proof (cases "fl \<in> set valid_files")
    case False
    then show ?thesis using Cons.IH [of cards n] by simp
  next
    case True
    then have "promo_is_valid_filename fl"
      using assms by (simp add: list_all_iff)
    then have "is_valid_filename fl"
      by (rule promo_valid_imp_valid)
    from level_segment [OF this] obtain seg segs where
      s: "py_split CHR ''_'' (py_lower (fst (splitext fl))) = seg # segs"
         "py_int seg = Some (int (digits_value seg))"
      by (elim exE conjE)
    obtain file_name file_ext where se: "splitext fl = (file_name, file_ext)"
      by (cases "splitext fl")
    show ?thesis
      using True s Cons.IH by (simp add: se Let_def)
  qed
qed

lemma add_cards_shape:
  "add_cards cards n folder_name target_directory valid_files now walked = Inr (cards', n') \<Longrightarrow>
   \<exists>new. cards' = cards @ new \<and> json_consecutive n (map jcard_id new) \<and>
     n' = n + int (length new) \<and> length new \<le> length walked \<and>
     list_all (\<lambda>c. jcard_col c = folder_name \<and> jcard_name c \<notin> set (names_in folder_name cards) \<and>
                jcard_name c \<in> card_name_of ` set valid_files) new \<and>
     distinct (map jcard_name new)"
proof (induction walked arbitrary: cards n cards' n')
  case Nil
  then have "cards' = cards @ [] \<and> json_consecutive n (map jcard_id []) \<and>
     n' = n + int (length ([] :: json_card list)) \<and>
     length ([] :: json_card list) \<le> length ([] :: string list) \<and>
     list_all (\<lambda>c. jcard_col c = folder_name \<and> jcard_name c \<notin> set (names_in folder_name cards) \<and>
                jcard_name c \<in> card_name_of ` set valid_files) [] \<and>
     distinct (map jcard_name [])"
    by (simp add: json_consecutive_Nil)
  then show ?case by (rule exI [of _ "[]"])
next
  case (Cons fl walked)
  obtain file_name file_ext where se: "splitext fl = (file_name, file_ext)"
    by (cases "splitext fl")
  obtain seg segs where sp: "py_split CHR ''_'' (py_lower file_name) = seg # segs"
    using py_split_nonempty [of "CHR ''_''" "py_lower file_name"]
    by (cases "py_split CHR ''_'' (py_lower file_name)") auto
  have nm: "card_name_of fl = py_join ''_'' segs"
    by (simp add: card_name_of_def se sp)
  consider (skip) "add_cards cards n folder_name target_directory valid_files now (fl # walked) =
        add_cards cards n folder_name target_directory valid_files now walked"
    | (add) level where "fl \<in> set valid_files"
        "find (\<lambda>card. jcard_name card = py_join ''_'' segs \<and> jcard_col card = folder_name) cards = None"
        "add_cards cards n folder_name target_directory valid_files now (fl # walked) =
         add_cards (cards @ [\<lparr>jcard_name = py_join ''_'' segs, jcard_level = level,
             jcard_animated = (py_lower file_ext = ''.gif''), jcard_col = folder_name,
             jcard_id = Some n, jcard_tags = target_directory, jcard_added = now\<rparr>]) (n + 1)
           folder_name target_directory valid_files now walked"
    | (fail) "add_cards cards n folder_name target_directory valid_files now (fl # walked) =
        Inl PyException"
  proof (cases "fl \<in> set valid_files \<and> py_lower file_ext \<in> ACCEPTED_EXTENSIONS \<union> {''.gif''}")
    case False
    then have "add_cards cards n folder_name target_directory valid_files now (fl # walked) =
        add_cards cards n folder_name target_directory valid_files now walked"
      by (auto simp: se Let_def)
    then show ?thesis by (rule skip)
  next
    case True
    show ?thesis
    proof (cases "py_int seg")
      case None
      with True have "add_cards cards n folder_name target_directory valid_files now (fl # walked) =
          Inl PyException"
        by (simp add: se sp Let_def)
      then show ?thesis by (rule fail)
    next
      case (Some level)
      show ?thesis
      proof (cases "find (\<lambda>card. jcard_name card = py_join ''_'' segs \<and>
          jcard_col card = folder_name) cards")
        case None
        with True Some have "add_cards cards n folder_name target_directory valid_files now
            (fl # walked) =
          add_cards (cards @ [\<lparr>jcard_name = py_join ''_'' segs, jcard_level = level,
             jcard_animated = (py_lower file_ext = ''.gif''), jcard_col = folder_name,
             jcard_id = Some n, jcard_tags = target_directory, jcard_added = now\<rparr>]) (n + 1)
           folder_name target_directory valid_files now walked"
          by (simp add: se sp Let_def)
        with True None show ?thesis by (intro add) simp_all
      next
        case (Some existing)
        with True \<open>py_int seg = Some level\<close>
        have "add_cards cards n folder_name target_directory valid_files now (fl # walked) =
            add_cards cards n folder_name target_directory valid_files now walked"
          by (simp add: se sp Let_def)
        then show ?thesis by (rule skip)
      qed
    qed
  qed
  then show ?case
  proof cases
    case skip
    with Cons.prems have "add_cards cards n folder_name target_directory valid_files now walked =
        Inr (cards', n')"
      by simp
    from Cons.IH [OF this] obtain new where new: "cards' = cards @ new"
      "json_consecutive n (map jcard_id new)" "n' = n + int (length new)"
      "length new \<le> length walked"
      "list_all (\<lambda>c. jcard_col c = folder_name \<and> jcard_name c \<notin> set (names_in folder_name cards) \<and>
                jcard_name c \<in> card_name_of ` set valid_files) new"
      "distinct (map jcard_name new)"
      by (elim exE conjE)
    then have "cards' = cards @ new \<and> json_consecutive n (map jcard_id new) \<and>
       n' = n + int (length new) \<and> length new \<le> length (fl # walked) \<and>
       list_all (\<lambda>c. jcard_col c = folder_name \<and> jcard_name c \<notin> set (names_in folder_name cards) \<and>
                jcard_name c \<in> card_name_of ` set valid_files) new \<and>
       distinct (map jcard_name new)"
      by simp
    then show ?thesis by (rule exI [of _ new])
  next
    case (add level)
    define c where "c = \<lparr>jcard_name = py_join ''_'' segs, jcard_level = level,
             jcard_animated = (py_lower file_ext = ''.gif''), jcard_col = folder_name,
             jcard_id = Some n, jcard_tags = target_directory, jcard_added = now\<rparr>"
    from add(3) Cons.prems have "add_cards (cards @ [c]) (n + 1) folder_name target_directory
        valid_files now walked = Inr (cards', n')"
      by (simp add: c_def)
    from Cons.IH [OF this] obtain new where new: "cards' = (cards @ [c]) @ new"
      "json_consecutive (n + 1) (map jcard_id new)" "n' = n + 1 + int (length new)"
      "length new \<le> length walked"
      "list_all (\<lambda>d. jcard_col d = folder_name \<and>
                jcard_name d \<notin> set (names_in folder_name (cards @ [c])) \<and>
                jcard_name d \<in> card_name_of ` set valid_files) new"
      "distinct (map jcard_name new)"
      by (elim exE conjE)
    have c: "jcard_id c = Some n" "jcard_col c = folder_name" "jcard_name c = card_name_of fl"
      by (simp_all add: c_def nm)
    have fresh: "jcard_name c \<notin> set (names_in folder_name cards)"
      using add(2) by (auto simp: find_None_iff names_in_def c_def)
    have inv: "jcard_name c \<in> card_name_of ` set valid_files"
      using add(1) c(3) by simp
    have notc: "jcard_name c \<notin> set (map jcard_name new)"
      using new(5) c(2) by (auto simp: list_all_iff names_in_def)
    have weaker: "list_all (\<lambda>d. jcard_col d = folder_name \<and>
                jcard_name d \<notin> set (names_in folder_name cards) \<and>
                jcard_name d \<in> card_name_of ` set valid_files) new"
      using new(5) by (auto simp: list_all_iff names_in_def)
    have "cards' = cards @ (c # new) \<and> json_consecutive n (map jcard_id (c # new)) \<and>
       n' = n + int (length (c # new)) \<and> length (c # new) \<le> length (fl # walked) \<and>
       list_all (\<lambda>c. jcard_col c = folder_name \<and> jcard_name c \<notin> set (names_in folder_name cards) \<and>
                jcard_name c \<in> card_name_of ` set valid_files) (c # new) \<and>
       distinct (map jcard_name (c # new))"
      using new(1-4,6) c fresh inv notc weaker by (simp add: json_consecutive_Cons)
    then show ?thesis by (rule exI [of _ "c # new"])
  next
    case fail
    with Cons.prems show ?thesis by simp
  qed
qed

subsection \<open>The shape of a valid name\<close>




subsection \<open>Parsing the level never fails on a valid name\<close>

text \<open>
  Claim C9. For every path that either validator accepts, the part of the lower-cased
  stem before the first underscore is a non-empty run of digits and \<^verbatim>\<open>int\<close> of it succeeds;
  so \<^verbatim>\<open>update_database\<close> does not raise on a list of accepted paths, and neither does
  the loop of \<^verbatim>\<open>update_json_files\<close>.
\<close>

theorem level_parse_total:
  "(is_valid_filename p \<or> promo_is_valid_filename p \<longrightarrow>
      (\<exists>seg segs. py_split CHR ''_'' (py_lower (fst (splitext p))) = seg # segs \<and>
         digits seg \<and> py_int seg = Some (int (digits_value seg)))) \<and>
   (list_all is_valid_filename valid_files \<longrightarrow>
      snd (update_database db directory target_directory valid_files now) = Inr True) \<and>
   (list_all promo_is_valid_filename promo_files \<longrightarrow>
      (\<exists>res. add_cards cards n folder_name target_directory promo_files now walked = Inr res))"
proof -
  have "is_valid_filename p" if "is_valid_filename p \<or> promo_is_valid_filename p"
    using that promo_valid_imp_valid by blast
  then show ?thesis
    using level_segment [of p] update_database_valid add_cards_ok by blast
qed

theorem level_parse_total_witness:
  "(\<exists>seg segs. py_split CHR ''_'' (py_lower (fst (splitext ''12_red_velvet_irene.jpg''))) = seg # segs \<and>
      digits seg \<and> py_int seg = Some (int (digits_value seg))) \<and>
   snd (update_database \<lparr>db_collections = [], db_cards = []\<rparr> ''in/twice'' ''girlgroups''
          [''3_iu.png''] 0) = Inr True \<and>
   (\<exists>res. add_cards [] 0 ''twice'' ''girlgroups'' [''12_red_velvet_irene.jpg''] 0
             [''12_red_velvet_irene.jpg''] = Inr res)"
proof -
  have a: "is_valid_filename ''12_red_velvet_irene.jpg'' \<or> promo_is_valid_filename ''12_red_velvet_irene.jpg''"
    and b: "list_all is_valid_filename [''3_iu.png'']"
    and c: "list_all promo_is_valid_filename [''12_red_velvet_irene.jpg'']"
    by code_simp+
  show ?thesis
    using a b c
      level_parse_total [where p = "''12_red_velvet_irene.jpg''" and valid_files = "[''3_iu.png'']"
        and db = "\<lparr>db_collections = [], db_cards = []\<rparr>" and directory = "''in/twice''"
        and target_directory = "''girlgroups''" and now = 0
        and promo_files = "[''12_red_velvet_irene.jpg'']" and cards = "[]" and n = 0
        and folder_name = "''twice''" and walked = "[''12_red_velvet_irene.jpg'']"]
    by blast
qed

subsection \<open>The catalog after one call\<close>

lemma consecutive_nth:
  "consecutive (next_card_id ids) news \<Longrightarrow> k < length news \<Longrightarrow>
   news ! k = next_card_id (ids @ take k news)"
proof (induction news arbitrary: ids k)
  case Nil
  then show ?case by simp
next
  case (Cons m news)
  then have m: "m = next_card_id ids" and rest: "consecutive (next_card_id ids + 1) news"
    by (simp_all add: consecutive_Cons)
  show ?case
  proof (cases k)
    case 0
    then show ?thesis by (simp add: m)
  next
    case (Suc j)
    have "consecutive (next_card_id (ids @ [m])) news"
      using rest by (simp add: m next_card_id_snoc)
    from Cons.IH [OF this, of j] Cons.prems(2) Suc show ?thesis
      by simp
  qed
qed

lemma consecutive_from_zero: "consecutive 0 ids \<longleftrightarrow> ids = map int [0..<length ids]"
  by (simp add: consecutive_def)

lemma json_consecutive_the:
  "json_consecutive n ids \<Longrightarrow> List.map_filter id ids = map (\<lambda>i. n + int i) [0..<length ids]"
proof -
  have "List.map_filter id (map (\<lambda>i. Some (n + int i)) xs) = map (\<lambda>i. n + int i) xs" for xs
    by (induction xs) (simp_all add: List.map_filter_simps)
  then show "json_consecutive n ids \<Longrightarrow> ?thesis"
    unfolding json_consecutive_def by metis
qed

lemma update_database_split:
  "update_database db directory target_directory valid_files now =
     (fst (insert_cards
        (if find (\<lambda>c. col_id c = basename directory) (db_collections db) = None
         then db\<lparr>db_collections := db_collections db @
                 [\<lparr>col_id = basename directory, col_name = py_upper (basename directory),
                   col_origin = None, col_aliases = [basename directory], col_promo = False,
                   col_compressed = True, col_rarity = - 1,
                   col_tags = [target_directory], col_added = now\<rparr>]\<rparr>
         else db)
        (basename directory) target_directory now valid_files),
      if snd (insert_cards
        (if find (\<lambda>c. col_id c = basename directory) (db_collections db) = None
         then db\<lparr>db_collections := db_collections db @
                 [\<lparr>col_id = basename directory, col_name = py_upper (basename directory),
                   col_origin = None, col_aliases = [basename directory], col_promo = False,
                   col_compressed = True, col_rarity = - 1,
                   col_tags = [target_directory], col_added = now\<rparr>]\<rparr>
         else db)
        (basename directory) target_directory now valid_files) = Inr ()
      then Inr True else Inl (CardProcessingError 2))"
  by (simp add: update_database_def Let_def split: prod.splits sum.splits)

lemma update_database_cards:
  "\<exists>new. db_cards (fst (update_database db directory target_directory valid_files now)) =
       db_cards db @ new \<and>
     consecutive (next_card_id (map card_id (db_cards db))) (map card_id new) \<and>
     map card_name new = map card_name_of (take (length new) valid_files) \<and>
     list_all (\<lambda>c. card_col c = basename directory) new \<and>
     length new \<le> length valid_files \<and>
     (snd (update_database db directory target_directory valid_files now) = Inr True \<longleftrightarrow>
        length new = length valid_files)"
proof -
  define db1 where "db1 =
    (if find (\<lambda>c. col_id c = basename directory) (db_collections db) = None
         then db\<lparr>db_collections := db_collections db @
                 [\<lparr>col_id = basename directory, col_name = py_upper (basename directory),
                   col_origin = None, col_aliases = [basename directory], col_promo = False,
                   col_compressed = True, col_rarity = - 1,
                   col_tags = [target_directory], col_added = now\<rparr>]\<rparr>
         else db)"
  have c1: "db_cards db1 = db_cards db"
    by (simp add: db1_def)
  obtain db2 r where ic: "insert_cards db1 (basename directory) target_directory now valid_files =
      (db2, r)"
    by (cases "insert_cards db1 (basename directory) target_directory now valid_files")
  have ud: "update_database db directory target_directory valid_files now =
      (db2, if r = Inr () then Inr True else Inl (CardProcessingError 2))"
    unfolding update_database_split db1_def [symmetric] ic by simp
  from insert_cards_shape [OF ic] obtain new where new:
    "db2 = db1\<lparr>db_cards := db_cards db1 @ new\<rparr>"
    "consecutive (next_card_id (map card_id (db_cards db1))) (map card_id new)"
    "map card_name new = map card_name_of (take (length new) valid_files)"
    "list_all (\<lambda>c. card_col c = basename directory) new"
    "length new \<le> length valid_files" "r = Inr () \<longleftrightarrow> length new = length valid_files"
    by (elim exE conjE)
  have "db_cards (fst (update_database db directory target_directory valid_files now)) =
       db_cards db @ new \<and>
     consecutive (next_card_id (map card_id (db_cards db))) (map card_id new) \<and>
     map card_name new = map card_name_of (take (length new) valid_files) \<and>
     list_all (\<lambda>c. card_col c = basename directory) new \<and>
     length new \<le> length valid_files \<and>
     (snd (update_database db directory target_directory valid_files now) = Inr True \<longleftrightarrow>
        length new = length valid_files)"
    using new by (simp add: ud c1)
  then show ?thesis by (rule exI [of _ new])
qed

lemma update_json_files_cards:
  assumes "update_json_files js walked directory target_directory valid_files now = (js', Inr ())"
  shows "\<exists>new. cards_file js' = cards_file js @ new \<and>
     json_consecutive (next_card_id (List.map_filter jcard_id (cards_file js))) (map jcard_id new) \<and>
     list_all (\<lambda>c. jcard_col c = basename directory \<and>
                jcard_name c \<notin> set (names_in (basename directory) (cards_file js)) \<and>
                jcard_name c \<in> card_name_of ` set valid_files) new \<and>
     distinct (map jcard_name new) \<and> length new \<le> length walked"
proof -
  obtain n where n: "first_next_id (cards_file js) = Inr n"
    using assms by (auto simp: update_json_files_def Let_def split: sum.splits)
  then have nn: "n = next_card_id (List.map_filter jcard_id (cards_file js))"
    by (simp add: first_next_id_eq split: if_splits)
  obtain cards1 n1 where ac: "add_cards (cards_file js) n (basename directory) target_directory
      valid_files now walked = Inr (cards1, n1)" and js': "cards_file js' = cards1"
    using assms n by (auto simp: update_json_files_def Let_def split: sum.splits)
  from add_cards_shape [OF ac] obtain new where
    "cards1 = cards_file js @ new" "json_consecutive n (map jcard_id new)"
    "length new \<le> length walked"
    "list_all (\<lambda>c. jcard_col c = basename directory \<and>
                jcard_name c \<notin> set (names_in (basename directory) (cards_file js)) \<and>
                jcard_name c \<in> card_name_of ` set valid_files) new"
    "distinct (map jcard_name new)"
    by (elim exE conjE)
  then have "cards_file js' = cards_file js @ new \<and>
     json_consecutive (next_card_id (List.map_filter jcard_id (cards_file js))) (map jcard_id new) \<and>
     list_all (\<lambda>c. jcard_col c = basename directory \<and>
                jcard_name c \<notin> set (names_in (basename directory) (cards_file js)) \<and>
                jcard_name c \<in> card_name_of ` set valid_files) new \<and>
     distinct (map jcard_name new) \<and> length new \<le> length walked"
    by (simp add: js' nn)
  then show ?thesis by (rule exI [of _ new])
qed

subsection \<open>Card ids are the greatest id plus one, and dense from an empty catalog\<close>

text \<open>
  Claim C1. In \<^verbatim>\<open>automate.py\<close> the id computed before each insertion is the greatest id of
  the catalog plus one, or zero for an empty catalog; in \<^verbatim>\<open>promoauto.py\<close> the id computed
  at the start of a batch is the greatest present id plus one, or zero for an empty
  catalog (and \<^verbatim>\<open>max\<close> raises when there are cards but none has an id). The cards a
  batch inserts are appended in order with consecutive ids starting there, each the
  greatest id before it plus one; so a batch of \<open>N\<close> validly named files into an empty
  catalog gets the ids \<open>0, \<dots>, N - 1\<close> in insertion order, in both scripts.
\<close>

theorem card_id_assignment:
  "(case find_one_sort_id_desc cs of Some last_card \<Rightarrow> card_id last_card + 1 | None \<Rightarrow> 0) =
     next_card_id (map card_id cs) \<and>
   first_next_id jcs =
     (if jcs \<noteq> [] \<and> List.map_filter jcard_id jcs = [] then Inl PyException
      else Inr (next_card_id (List.map_filter jcard_id jcs))) \<and>
   (\<exists>new. db_cards (fst (update_database db directory target_directory valid_files now)) =
        db_cards db @ new \<and>
      consecutive (next_card_id (map card_id (db_cards db))) (map card_id new) \<and>
      (\<forall>k. k < length new \<longrightarrow>
         card_id (new ! k) = next_card_id (map card_id (db_cards db @ take k new))) \<and>
      (snd (update_database db directory target_directory valid_files now) = Inr True \<longleftrightarrow>
         length new = length valid_files)) \<and>
   (db_cards db = [] \<and> list_all is_valid_filename valid_files \<longrightarrow>
      map card_id (db_cards (fst (update_database db directory target_directory valid_files now))) =
        map int [0..<length valid_files]) \<and>
   (update_json_files js walked directory target_directory promo_files now = (js', Inr ()) \<longrightarrow>
      (\<exists>new. cards_file js' = cards_file js @ new \<and>
         json_consecutive (next_card_id (List.map_filter jcard_id (cards_file js)))
           (map jcard_id new) \<and>
         (cards_file js = [] \<longrightarrow>
            map jcard_id (cards_file js') = map (\<lambda>i. Some (int i)) [0..<length (cards_file js')])))"
proof (intro conjI impI)
  show "(case find_one_sort_id_desc cs of Some last_card \<Rightarrow> card_id last_card + 1 | None \<Rightarrow> 0) =
     next_card_id (map card_id cs)"
    by (rule next_id_desc)
  show "first_next_id jcs =
     (if jcs \<noteq> [] \<and> List.map_filter jcard_id jcs = [] then Inl PyException
      else Inr (next_card_id (List.map_filter jcard_id jcs)))"
    by (rule first_next_id_eq)
  from update_database_cards [of db directory target_directory valid_files now]
  obtain new where new:
    "db_cards (fst (update_database db directory target_directory valid_files now)) =
       db_cards db @ new"
    "consecutive (next_card_id (map card_id (db_cards db))) (map card_id new)"
    "snd (update_database db directory target_directory valid_files now) = Inr True \<longleftrightarrow>
        length new = length valid_files"
    by (elim exE conjE)
  have nth: "card_id (new ! k) = next_card_id (map card_id (db_cards db @ take k new))"
    if "k < length new" for k
    using consecutive_nth [OF new(2), of k] that by (simp add: take_map)
  have "db_cards (fst (update_database db directory target_directory valid_files now)) =
        db_cards db @ new \<and>
      consecutive (next_card_id (map card_id (db_cards db))) (map card_id new) \<and>
      (\<forall>k. k < length new \<longrightarrow>
         card_id (new ! k) = next_card_id (map card_id (db_cards db @ take k new))) \<and>
      (snd (update_database db directory target_directory valid_files now) = Inr True \<longleftrightarrow>
         length new = length valid_files)"
    using new nth by blast
  then show "\<exists>new. db_cards (fst (update_database db directory target_directory valid_files now)) =
        db_cards db @ new \<and>
      consecutive (next_card_id (map card_id (db_cards db))) (map card_id new) \<and>
      (\<forall>k. k < length new \<longrightarrow>
         card_id (new ! k) = next_card_id (map card_id (db_cards db @ take k new))) \<and>
      (snd (update_database db directory target_directory valid_files now) = Inr True \<longleftrightarrow>
         length new = length valid_files)"
    by (rule exI [of _ new])
  show "map card_id (db_cards (fst (update_database db directory target_directory valid_files now))) =
        map int [0..<length valid_files]"
    if h: "db_cards db = [] \<and> list_all is_valid_filename valid_files"
  proof -
    have "length new = length valid_files"
      using new(3) update_database_valid [of valid_files db directory target_directory now] h
      by simp
    moreover have "consecutive 0 (map card_id new)"
      using new(2) h by (simp add: next_card_id_def)
    ultimately show ?thesis
      using new(1) h by (simp add: consecutive_from_zero)
  qed
  show "\<exists>new. cards_file js' = cards_file js @ new \<and>
         json_consecutive (next_card_id (List.map_filter jcard_id (cards_file js)))
           (map jcard_id new) \<and>
         (cards_file js = [] \<longrightarrow>
            map jcard_id (cards_file js') = map (\<lambda>i. Some (int i)) [0..<length (cards_file js')])"
    if h: "update_json_files js walked directory target_directory promo_files now = (js', Inr ())"
  proof -
    from update_json_files_cards [OF h] obtain new where n:
      "cards_file js' = cards_file js @ new"
      "json_consecutive (next_card_id (List.map_filter jcard_id (cards_file js))) (map jcard_id new)"
      by (elim exE conjE)
    have "map jcard_id (cards_file js') = map (\<lambda>i. Some (int i)) [0..<length (cards_file js')]"
      if "cards_file js = []"
      using n that by (simp add: next_card_id_def json_consecutive_def List.map_filter_simps)
    with n have "cards_file js' = cards_file js @ new \<and>
         json_consecutive (next_card_id (List.map_filter jcard_id (cards_file js)))
           (map jcard_id new) \<and>
         (cards_file js = [] \<longrightarrow>
            map jcard_id (cards_file js') = map (\<lambda>i. Some (int i)) [0..<length (cards_file js')])"
      by blast
    then show ?thesis by (rule exI [of _ new])
  qed
qed

theorem card_id_assignment_witness:
  "map card_id (db_cards (fst (update_database \<lparr>db_collections = [], db_cards = []\<rparr> ''in/twice''
      ''girlgroups'' [''1_abc.jpg'', ''2_abc.jpg'', ''3_momo.gif''] 0))) = [0, 1, 2] \<and>
   map jcard_id (cards_file (fst (update_json_files \<lparr>cards_file = [], collections_file = []\<rparr>
      [''1_abc_x.jpg'', ''2_def_y.jpg''] ''in/twice'' ''girlgroups''
      [''1_abc_x.jpg'', ''2_def_y.jpg''] 0))) = [Some 0, Some 1]"
proof -
  have a: "db_cards \<lparr>db_collections = [], db_cards = []\<rparr> = [] \<and>
      list_all is_valid_filename [''1_abc.jpg'', ''2_abc.jpg'', ''3_momo.gif'']"
    by code_simp
  have "snd (update_json_files \<lparr>cards_file = [], collections_file = []\<rparr>
      [''1_abc_x.jpg'', ''2_def_y.jpg''] ''in/twice'' ''girlgroups''
      [''1_abc_x.jpg'', ''2_def_y.jpg''] 0) = Inr ()"
    by code_simp
  then have b: "update_json_files \<lparr>cards_file = [], collections_file = []\<rparr>
      [''1_abc_x.jpg'', ''2_def_y.jpg''] ''in/twice'' ''girlgroups''
      [''1_abc_x.jpg'', ''2_def_y.jpg''] 0 =
      (fst (update_json_files \<lparr>cards_file = [], collections_file = []\<rparr>
      [''1_abc_x.jpg'', ''2_def_y.jpg''] ''in/twice'' ''girlgroups''
      [''1_abc_x.jpg'', ''2_def_y.jpg''] 0), Inr ())"
    by (simp add: prod_eq_iff)
  have len: "length (cards_file (fst (update_json_files \<lparr>cards_file = [], collections_file = []\<rparr>
      [''1_abc_x.jpg'', ''2_def_y.jpg''] ''in/twice'' ''girlgroups''
      [''1_abc_x.jpg'', ''2_def_y.jpg''] 0))) = 2"
    by code_simp
  have c: "cards_file \<lparr>cards_file = [], collections_file = []\<rparr> = []"
    by simp
  note t = card_id_assignment [where db = "\<lparr>db_collections = [], db_cards = []\<rparr>"
      and directory = "''in/twice''" and target_directory = "''girlgroups''"
      and valid_files = "[''1_abc.jpg'', ''2_abc.jpg'', ''3_momo.gif'']" and now = 0
      and js = "\<lparr>cards_file = [], collections_file = []\<rparr>"
      and walked = "[''1_abc_x.jpg'', ''2_def_y.jpg'']"
      and promo_files = "[''1_abc_x.jpg'', ''2_def_y.jpg'']"
      and js' = "fst (update_json_files \<lparr>cards_file = [], collections_file = []\<rparr>
      [''1_abc_x.jpg'', ''2_def_y.jpg''] ''in/twice'' ''girlgroups''
      [''1_abc_x.jpg'', ''2_def_y.jpg''] 0)"]
  have 1: "map card_id (db_cards (fst (update_database \<lparr>db_collections = [], db_cards = []\<rparr>
      ''in/twice'' ''girlgroups'' [''1_abc.jpg'', ''2_abc.jpg'', ''3_momo.gif''] 0))) =
      map int [0..<length [''1_abc.jpg'', ''2_abc.jpg'', ''3_momo.gif'']]"
    using t a by blast
  have 2: "map jcard_id (cards_file (fst (update_json_files \<lparr>cards_file = [], collections_file = []\<rparr>
      [''1_abc_x.jpg'', ''2_def_y.jpg''] ''in/twice'' ''girlgroups''
      [''1_abc_x.jpg'', ''2_def_y.jpg''] 0))) = map (\<lambda>i. Some (int i)) [0..<2]"
    using t b c unfolding len [symmetric] by blast
  show ?thesis
    using 1 2 by (simp add: upt_rec)
qed

subsection \<open>Uploads in \<^verbatim>\<open>promoauto.py\<close>, and the steps of a directory\<close>

lemma promo_upload_file_result:
  "snd (promo_upload_file e bucket p folder_name target_directory) =
     (if \<not> promo_is_valid_filename p then Inr None
      else if upload_ok e p then Inr (Some p) else Inl (CardProcessingError 1))"
  by (simp add: promo_upload_file_def Let_def split: prod.splits)

lemma promo_upload_file_invalid:
  "\<not> promo_is_valid_filename p \<Longrightarrow>
   promo_upload_file e bucket p folder_name target_directory = (bucket, Inr None)"
  by (simp add: promo_upload_file_def)

lemma promo_run_tasks_Cons:
  "promo_run_tasks e bucket folder_name target_directory (p # rest) =
     (fst (promo_run_tasks e (fst (promo_upload_file e bucket p folder_name target_directory))
             folder_name target_directory rest),
      snd (promo_upload_file e bucket p folder_name target_directory) #
      snd (promo_run_tasks e (fst (promo_upload_file e bucket p folder_name target_directory))
             folder_name target_directory rest))"
  by (simp add: split_beta)

lemma promo_run_tasks_results:
  "snd (promo_run_tasks e bucket folder_name target_directory files) =
     map (\<lambda>p. if \<not> promo_is_valid_filename p then Inr None
               else if upload_ok e p then Inr (Some p) else Inl (CardProcessingError 1)) files"
proof (induction files arbitrary: bucket)
  case Nil
  then show ?case by simp
next
  case (Cons p files)
  show ?case
    unfolding promo_run_tasks_Cons
    by (simp only: snd_conv list.map Cons.IH promo_upload_file_result)
qed

lemma promo_run_tasks_filter:
  "fst (promo_run_tasks e bucket folder_name target_directory files) =
   fst (promo_run_tasks e bucket folder_name target_directory
          (filter promo_is_valid_filename files))"
proof (induction files arbitrary: bucket)
  case Nil
  then show ?case by simp
next
  case (Cons p files)
  show ?case
  proof (cases "promo_is_valid_filename p")
    case True
    then have "filter promo_is_valid_filename (p # files) =
        p # filter promo_is_valid_filename files"
      by simp
    then show ?thesis
      unfolding promo_run_tasks_Cons
      by (simp only: promo_run_tasks_Cons fst_conv Cons.IH [symmetric])
  next
    case False
    then have "filter promo_is_valid_filename (p # files) = filter promo_is_valid_filename files"
      and "fst (promo_upload_file e bucket p folder_name target_directory) = bucket"
      by (simp_all add: promo_upload_file_invalid)
    then show ?thesis
      unfolding promo_run_tasks_Cons by (simp only: fst_conv Cons.IH [symmetric])
  qed
qed

lemma promo_loop_results:
  "as_completed_loop acc
     (map (\<lambda>p. if \<not> promo_is_valid_filename p then Inr None
               else if upload_ok e p then Inr (Some p) else Inl (CardProcessingError 1)) files) =
   (if promo_upload_fails e files then Inl (CardProcessingError 1)
    else Inr (acc @ filter promo_is_valid_filename files))"
  by (induction files arbitrary: acc) (simp_all add: promo_upload_fails_def)

lemma promo_upload_files_split:
  "promo_upload_files e bucket files folder_name target_directory =
     (fst (promo_run_tasks e bucket folder_name target_directory files),
      as_completed_loop [] (snd (promo_run_tasks e bucket folder_name target_directory files)))"
  by (simp add: promo_upload_files_def split_beta)

lemma promo_upload_files_result:
  "snd (promo_upload_files e bucket files folder_name target_directory) =
   (if promo_upload_fails e files then Inl (CardProcessingError 1)
    else Inr (filter promo_is_valid_filename files))"
  by (simp add: promo_upload_files_split promo_run_tasks_results promo_loop_results)

lemma promo_upload_fails_filter:
  "promo_upload_fails e (filter promo_is_valid_filename files) = promo_upload_fails e files"
  by (induction files) (simp_all add: promo_upload_fails_def)

lemma promo_upload_files_filter:
  "promo_upload_files e bucket files folder_name target_directory =
   promo_upload_files e bucket (filter promo_is_valid_filename files) folder_name
     target_directory"
proof -
  have "as_completed_loop []
        (snd (promo_run_tasks e bucket folder_name target_directory files)) =
      as_completed_loop []
        (snd (promo_run_tasks e bucket folder_name target_directory
                (filter promo_is_valid_filename files)))"
    by (simp add: promo_run_tasks_results promo_loop_results promo_upload_fails_filter)
  then show ?thesis
    unfolding promo_upload_files_split
    using promo_run_tasks_filter [of e bucket folder_name target_directory files] by simp
qed

lemma upload_files_eq:
  "upload_files e bucket files folder_name target_directory = (bucket', r) \<Longrightarrow>
   r = (if upload_fails e files then Inl (CardProcessingError 1)
        else Inr (filter is_valid_filename files))"
  using upload_files_result [of e bucket files folder_name target_directory] by simp

lemma promo_upload_files_eq:
  "promo_upload_files e bucket files folder_name target_directory = (bucket', r) \<Longrightarrow>
   r = (if promo_upload_fails e files then Inl (CardProcessingError 1)
        else Inr (filter promo_is_valid_filename files))"
  using promo_upload_files_result [of e bucket files folder_name target_directory] by simp

lemma process_directory_cases:
  obtains (folder) "snd (process_directory e w d t now) = ([], False)"
      "w_db (fst (process_directory e w d t now)) = w_db w"
      "put_object_ok e (''cards/'' @ t @ ''/'' @ basename d @ ''/'') = False"
  | (upload) "snd (process_directory e w d t now) = ([], False)"
      "w_db (fst (process_directory e w d t now)) = w_db w"
      "upload_fails e (rename_files (w_files w d))"
  | (catalog) "\<not> upload_fails e (rename_files (w_files w d))"
      "w_db (fst (process_directory e w d t now)) =
         fst (update_database (w_db w) d t (filter is_valid_filename (rename_files (w_files w d))) now)"
      "snd (process_directory e w d t now) =
         (case snd (update_database (w_db w) d t
                 (filter is_valid_filename (rename_files (w_files w d))) now) of
            Inl exn \<Rightarrow> ([], False)
          | Inr added \<Rightarrow> (filter is_valid_filename (rename_files (w_files w d)), added))"
proof (cases "put_object_ok e (''cards/'' @ t @ ''/'' @ basename d @ ''/'')")
  case False
  then have "snd (process_directory e w d t now) = ([], False)"
      "w_db (fst (process_directory e w d t now)) = w_db w"
    by (simp_all add: process_directory_def create_folder_def Let_def)
  with False show ?thesis by (intro folder) simp_all
next
  case True
  define b1 where "b1 = w_bucket w @ [\<lparr>s3_key = ''cards/'' @ t @ ''/'' @ basename d @ ''/'',
      s3_acl = [], s3_content_type = []\<rparr>]"
  have cf: "create_folder e (w_bucket w) (basename d) t = (b1, Inr ())"
    using True by (simp add: create_folder_def Let_def b1_def)
  obtain b2 r where uf: "upload_files e b1 (rename_files (w_files w d)) (basename d) t = (b2, r)"
    by (cases "upload_files e b1 (rename_files (w_files w d)) (basename d) t")
  note r = upload_files_eq [OF uf]
  show ?thesis
  proof (cases "upload_fails e (rename_files (w_files w d))")
    case True
    with r have "r = Inl (CardProcessingError 1)" by simp
    then have "snd (process_directory e w d t now) = ([], False)"
      "w_db (fst (process_directory e w d t now)) = w_db w"
      by (simp_all add: process_directory_def Let_def cf uf)
    with True show ?thesis by (intro upload)
  next
    case False
    with r have r': "r = Inr (filter is_valid_filename (rename_files (w_files w d)))" by simp
    obtain db2 r2 where ud: "update_database (w_db w) d t
        (filter is_valid_filename (rename_files (w_files w d))) now = (db2, r2)"
      by (cases "update_database (w_db w) d t
        (filter is_valid_filename (rename_files (w_files w d))) now")
    have "w_db (fst (process_directory e w d t now)) = db2"
      "snd (process_directory e w d t now) =
         (case r2 of Inl exn \<Rightarrow> ([], False)
          | Inr added \<Rightarrow> (filter is_valid_filename (rename_files (w_files w d)), added))"
      by (simp_all add: process_directory_def Let_def cf uf r' ud split: sum.splits)
    with False ud show ?thesis by (intro catalog) simp_all
  qed
qed

end
